theory Spec2Isabelle
  imports Main
begin

section \<open>JSON input as the decoder of encoding/json sees it\<close>

text \<open>
  The handlers of \<^verbatim>\<open>handlers/v1/airports\<close> read the request body through Go's
  \<^verbatim>\<open>encoding/json\<close>. The body is represented by its sequence of lexical tokens
  (white space between tokens is dropped, a string token carries its decoded text, a
  number token its literal). \<open>TBadString\<close> stands for a string literal that is
  malformed or not closed, \<open>TInvalid\<close> for any other piece of input that is no JSON
  token (a stray letter, a truncated literal).
\<close>

datatype jtoken =
    TLBracket | TRBracket | TLBrace | TRBrace | TComma | TColon
  | TString string | TNumber string | TTrue | TFalse | TNull | TBadString | TInvalid

datatype json =
    JNull | JBool bool | JNumber string | JString string
  | JArray "json list" | JObject "(string \<times> json) list"

text \<open>
  The token sequence of a JSON value. \<open>array_prefix vs\<close> is the inside of an array up
  to and including its last element: the elements separated by commas.
\<close>

fun tokens_of :: "json \<Rightarrow> jtoken list" where
  "tokens_of JNull = [TNull]"
| "tokens_of (JBool b) = [if b then TTrue else TFalse]"
| "tokens_of (JNumber n) = [TNumber n]"
| "tokens_of (JString s) = [TString s]"
| "tokens_of (JArray vs) =
     (case vs of
        [] \<Rightarrow> [TLBracket, TRBracket]
      | v # ws \<Rightarrow> TLBracket # tokens_of v @ concat (map (\<lambda>w. TComma # tokens_of w) ws) @ [TRBracket])"
| "tokens_of (JObject ms) =
     (case ms of
        [] \<Rightarrow> [TLBrace, TRBrace]
      | (k, v) # ns \<Rightarrow>
          TLBrace # TString k # TColon # tokens_of v
            @ concat (map (\<lambda>(k', w). TComma # TString k' # TColon # tokens_of w) ns) @ [TRBrace])"

definition array_prefix :: "json list \<Rightarrow> jtoken list" where
  "array_prefix vs =
     (case vs of [] \<Rightarrow> [] | v # ws \<Rightarrow> tokens_of v @ concat (map (\<lambda>w. TComma # tokens_of w) ws))"

subsection \<open>Reading one value\<close>

text \<open>
  The scanner of encoding/json is a pushdown automaton: \<open>parseState\<close> is the stack of
  the arrays and objects that are open, and the step functions \<open>stateBeginValue\<close>,
  \<open>stateBeginValueOrEmpty\<close>, \<open>stateBeginStringOrEmpty\<close>, \<open>stateBeginString\<close> and
  \<open>stateEndValue\<close> say what may come next. The model keeps that shape, one token at a
  time, and builds the value as the decoder does afterwards: a frame holds the elements
  (or the members and the pending key) read so far. The result is the value together
  with the tokens that follow it; \<open>None\<close> is a syntax error or the end of the input
  inside a value.
\<close>

datatype frame = FArr "json list" | FObj "(string \<times> json) list" string

fun begin_value :: "frame list \<Rightarrow> jtoken list \<Rightarrow> (json \<times> jtoken list) option"
and end_value :: "json \<Rightarrow> frame list \<Rightarrow> jtoken list \<Rightarrow> (json \<times> jtoken list) option"
and begin_key :: "(string \<times> json) list \<Rightarrow> frame list \<Rightarrow> jtoken list \<Rightarrow> (json \<times> jtoken list) option"
where
  "begin_value stk [] = None"
| "begin_value stk (t # ts) =
     (case t of
        TNull \<Rightarrow> end_value JNull stk ts
      | TTrue \<Rightarrow> end_value (JBool True) stk ts
      | TFalse \<Rightarrow> end_value (JBool False) stk ts
      | TNumber n \<Rightarrow> end_value (JNumber n) stk ts
      | TString s \<Rightarrow> end_value (JString s) stk ts
      | TLBracket \<Rightarrow>
          (case ts of
             TRBracket # ts' \<Rightarrow> end_value (JArray []) stk ts'
           | _ \<Rightarrow> begin_value (FArr [] # stk) ts)
      | TLBrace \<Rightarrow>
          (case ts of
             TRBrace # ts' \<Rightarrow> end_value (JObject []) stk ts'
           | _ \<Rightarrow> begin_key [] stk ts)
      | _ \<Rightarrow> None)"
| "end_value v [] ts = Some (v, ts)"
| "end_value v (f # stk) [] = None"
| "end_value v (f # stk) (t # ts) =
     (case f of
        FArr acc \<Rightarrow>
          (case t of
             TComma \<Rightarrow> begin_value (FArr (acc @ [v]) # stk) ts
           | TRBracket \<Rightarrow> end_value (JArray (acc @ [v])) stk ts
           | _ \<Rightarrow> None)
      | FObj acc k \<Rightarrow>
          (case t of
             TComma \<Rightarrow> begin_key (acc @ [(k, v)]) stk ts
           | TRBrace \<Rightarrow> end_value (JObject (acc @ [(k, v)])) stk ts
           | _ \<Rightarrow> None))"
| "begin_key acc stk ts =
     (case ts of
        TString k # TColon # ts' \<Rightarrow> begin_value (FObj acc k # stk) ts'
      | _ \<Rightarrow> None)"

text \<open>
  A value that is read gives back fewer tokens than it was given: the decoder always
  moves forward. The streaming loop terminates by this.
\<close>

lemma parse_shorter:
  "begin_value stk ts = Some (v', ts') \<longrightarrow> length ts' < length ts"
  "end_value v stk ts = Some (v', ts') \<longrightarrow> length ts' \<le> length ts"
  "begin_key acc stk ts = Some (v', ts') \<longrightarrow> length ts' < length ts"
proof (induction stk ts and v stk ts and acc stk ts rule: begin_value_end_value_begin_key.induct)
  case (1 stk)
  then show ?case by simp
next
  case (2 stk t ts)
  show ?case
  proof (cases t)
    case TLBracket
    then show ?thesis using 2 by (cases ts) (auto split: jtoken.splits)
  next
    case TLBrace
    then show ?thesis using 2 by (cases ts) (auto split: jtoken.splits)
  qed (use 2 in auto)
next
  case (3 v ts)
  then show ?case by simp
next
  case (4 v f stk)
  then show ?case by simp
next
  case (5 v f stk t ts)
  then show ?case by (cases f; cases t) auto
next
  case (6 acc stk ts)
  then show ?case by (fastforce split: list.splits jtoken.splits)
qed

subsection \<open>The request struct and unmarshalling into it\<close>

text \<open>
  \<^verbatim>\<open>UpsertAirportRequest\<close> of airports.go: four strings, tagged \<^verbatim>\<open>name\<close>, \<^verbatim>\<open>city\<close>,
  \<^verbatim>\<open>country\<close> and \<^verbatim>\<open>iata_code\<close>. The struct has no geolocation field.
\<close>

record UpsertAirportRequest =
  Name :: string
  City :: string
  Country :: string
  IataCode :: string

definition zero_request :: UpsertAirportRequest where
  "zero_request = \<lparr>Name = [], City = [], Country = [], IataCode = []\<rparr>"

datatype struct_field = FName | FCity | FCountry | FIataCode

definition json_tags :: "(string \<times> struct_field) list" where
  "json_tags = [(''name'', FName), (''city'', FCity), (''country'', FCountry), (''iata_code'', FIataCode)]"

fun to_lower :: "char \<Rightarrow> char" where
  "to_lower (Char b0 b1 b2 b3 b4 b5 b6 b7) =
     (let n = (of_char (Char b0 b1 b2 b3 b4 b5 b6 b7) :: nat)
      in if 65 \<le> n \<and> n \<le> 90 then Char b0 b1 b2 b3 b4 True b6 b7
         else Char b0 b1 b2 b3 b4 b5 b6 b7)"

text \<open>
  encoding/json looks a key up by its exact name first and then without regard to
  case. The tags here have no letter that folds with a character outside ASCII, so
  lower-casing the ASCII letters of the key is the whole of the second lookup.
\<close>

definition lookup_field :: "string \<Rightarrow> struct_field option" where
  "lookup_field key =
     (case map_of json_tags key of
        Some f \<Rightarrow> Some f
      | None \<Rightarrow> map_of json_tags (map to_lower key))"

fun set_field :: "struct_field \<Rightarrow> string \<Rightarrow> UpsertAirportRequest \<Rightarrow> UpsertAirportRequest" where
  "set_field FName s r = r\<lparr>Name := s\<rparr>"
| "set_field FCity s r = r\<lparr>City := s\<rparr>"
| "set_field FCountry s r = r\<lparr>Country := s\<rparr>"
| "set_field FIataCode s r = r\<lparr>IataCode := s\<rparr>"

datatype dec_error = EOF | SyntaxError | UnmarshalTypeError | UnexpectedToken

text \<open>
  Unmarshalling an object into the struct walks its members in order: a key that names
  no field is skipped with its value, a string is stored, \<^verbatim>\<open>null\<close> leaves the field
  as it is, and any other value is an \<^verbatim>\<open>UnmarshalTypeError\<close>. (Go records the first
  such error, goes on, and returns it at the end; the callers here drop the struct
  when an error comes back, so the model returns the error at once.) \<^verbatim>\<open>null\<close> in the
  place of the object leaves the struct at its zero value; every other value is an
  \<^verbatim>\<open>UnmarshalTypeError\<close>.
\<close>

fun unmarshal_members :: "(string \<times> json) list \<Rightarrow> UpsertAirportRequest \<Rightarrow> dec_error + UpsertAirportRequest" where
  "unmarshal_members [] r = Inr r"
| "unmarshal_members ((key, v) # ms) r =
     (case lookup_field key of
        None \<Rightarrow> unmarshal_members ms r
      | Some f \<Rightarrow>
          (case v of
             JString s \<Rightarrow> unmarshal_members ms (set_field f s r)
           | JNull \<Rightarrow> unmarshal_members ms r
           | _ \<Rightarrow> Inl UnmarshalTypeError))"

definition unmarshal_request :: "json \<Rightarrow> dec_error + UpsertAirportRequest" where
  "unmarshal_request v =
     (case v of
        JObject ms \<Rightarrow> unmarshal_members ms zero_request
      | JNull \<Rightarrow> Inr zero_request
      | _ \<Rightarrow> Inl UnmarshalTypeError)"

fun unmarshal_elements :: "json list \<Rightarrow> dec_error + UpsertAirportRequest list" where
  "unmarshal_elements [] = Inr []"
| "unmarshal_elements (v # vs) =
     (case unmarshal_request v of
        Inl e \<Rightarrow> Inl e
      | Inr r \<Rightarrow> (case unmarshal_elements vs of Inl e \<Rightarrow> Inl e | Inr rs \<Rightarrow> Inr (r # rs)))"

text \<open>
  \<^verbatim>\<open>json.Unmarshal(body, &airportsToBeUpserted)\<close> into a slice of requests: the body must
  be exactly one JSON value; an array gives its elements, \<^verbatim>\<open>null\<close> gives the nil slice
  without an error, and any other value is an \<^verbatim>\<open>UnmarshalTypeError\<close>.
\<close>

definition json_Unmarshal :: "jtoken list \<Rightarrow> dec_error + UpsertAirportRequest list" where
  "json_Unmarshal data =
     (case begin_value [] data of
        None \<Rightarrow> Inl SyntaxError
      | Some (v, rest) \<Rightarrow>
          if rest \<noteq> [] then Inl SyntaxError
          else (case v of
                  JArray vs \<Rightarrow> unmarshal_elements vs
                | JNull \<Rightarrow> Inr []
                | _ \<Rightarrow> Inl UnmarshalTypeError))"

text \<open>\<^verbatim>\<open>io.ReadAll\<close> on a request body that arrived whole.\<close>

definition io_ReadAll :: "jtoken list \<Rightarrow> string + jtoken list" where
  "io_ReadAll body = Inr body"

subsection \<open>The streaming decoder\<close>

text \<open>
  \<^verbatim>\<open>json.Decoder\<close>: the input still to be read, the state of the token API with its
  stack, and the error that sticks once reading a value has failed.
\<close>

datatype tokenState =
    tokenTopValue | tokenArrayStart | tokenArrayValue | tokenArrayComma
  | tokenObjectStart | tokenObjectKey | tokenObjectColon | tokenObjectValue | tokenObjectComma

record Decoder =
  toks :: "jtoken list"
  tokenState :: tokenState
  tokenStack :: "tokenState list"
  dec_err :: "dec_error option"

definition NewDecoder :: "jtoken list \<Rightarrow> Decoder" where
  "NewDecoder body = \<lparr>toks = body, tokenState = tokenTopValue, tokenStack = [], dec_err = None\<rparr>"

datatype delim = LBracket | RBracket | LBrace | RBrace

datatype token = Delim delim | Value json

definition More :: "Decoder \<Rightarrow> bool" where
  "More d = (case toks d of [] \<Rightarrow> False | c # _ \<Rightarrow> c \<noteq> TRBracket \<and> c \<noteq> TRBrace)"

definition tokenPrepareForDecode :: "Decoder \<Rightarrow> dec_error option \<times> Decoder" where
  "tokenPrepareForDecode d =
     (case tokenState d of
        tokenArrayComma \<Rightarrow>
          (case toks d of
             [] \<Rightarrow> (Some EOF, d)
           | c # rest \<Rightarrow>
               if c \<noteq> TComma then (Some SyntaxError, d)
               else (None, d\<lparr>toks := rest, tokenState := tokenArrayValue\<rparr>))
      | tokenObjectColon \<Rightarrow>
          (case toks d of
             [] \<Rightarrow> (Some EOF, d)
           | c # rest \<Rightarrow>
               if c \<noteq> TColon then (Some SyntaxError, d)
               else (None, d\<lparr>toks := rest, tokenState := tokenObjectValue\<rparr>))
      | _ \<Rightarrow> (None, d))"

definition tokenValueAllowed :: "Decoder \<Rightarrow> bool" where
  "tokenValueAllowed d =
     (case tokenState d of
        tokenTopValue \<Rightarrow> True | tokenArrayStart \<Rightarrow> True
      | tokenArrayValue \<Rightarrow> True | tokenObjectValue \<Rightarrow> True
      | _ \<Rightarrow> False)"

definition tokenValueEnd :: "Decoder \<Rightarrow> Decoder" where
  "tokenValueEnd d =
     (case tokenState d of
        tokenArrayStart \<Rightarrow> d\<lparr>tokenState := tokenArrayComma\<rparr>
      | tokenArrayValue \<Rightarrow> d\<lparr>tokenState := tokenArrayComma\<rparr>
      | tokenObjectValue \<Rightarrow> d\<lparr>tokenState := tokenObjectComma\<rparr>
      | _ \<Rightarrow> d)"

text \<open>
  \<^verbatim>\<open>readValue\<close> finds the end of the next value and the decoder's state machine then
  unmarshals those bytes; the model reads and builds the value in one pass. A failure
  leaves the input where it was and sticks in \<open>dec_err\<close>.
\<close>

definition readValue :: "Decoder \<Rightarrow> (dec_error + json) \<times> Decoder" where
  "readValue d =
     (case begin_value [] (toks d) of
        None \<Rightarrow>
          (let e = (if toks d = [] then EOF else SyntaxError)
           in (Inl e, d\<lparr>dec_err := Some e\<rparr>))
      | Some (v, rest) \<Rightarrow> (Inr v, d\<lparr>toks := rest\<rparr>))"

text \<open>
  \<^verbatim>\<open>Decode\<close> up to the point where the value is stored into the target:
  the sticky error, the separator, whether a value may stand here, the value, and the
  move of the token state past it.
\<close>

definition DecodeValue :: "Decoder \<Rightarrow> (dec_error + json) \<times> Decoder" where
  "DecodeValue d =
     (case dec_err d of
        Some e \<Rightarrow> (Inl e, d)
      | None \<Rightarrow>
          (case tokenPrepareForDecode d of
             (Some e, d1) \<Rightarrow> (Inl e, d1)
           | (None, d1) \<Rightarrow>
               if \<not> tokenValueAllowed d1 then (Inl SyntaxError, d1)
               else (case readValue d1 of
                       (Inl e, d2) \<Rightarrow> (Inl e, d2)
                     | (Inr v, d2) \<Rightarrow> (Inr v, tokenValueEnd d2))))"

text \<open>\<^verbatim>\<open>dec.Decode(&req)\<close> with \<^verbatim>\<open>var req UpsertAirportRequest\<close>.\<close>

definition Decode :: "Decoder \<Rightarrow> (dec_error + UpsertAirportRequest) \<times> Decoder" where
  "Decode d =
     (case DecodeValue d of
        (Inl e, d') \<Rightarrow> (Inl e, d')
      | (Inr v, d') \<Rightarrow> (unmarshal_request v, d'))"

text \<open>
  \<^verbatim>\<open>dec.Token()\<close>. A colon or a comma in its place is passed over and the loop goes
  on; a delimiter is returned as such; anything else is read as a whole value. A
  delimiter that may not stand here is a syntax error (\<^verbatim>\<open>tokenError\<close>). In the object
  states a string (well-formed or not) is read as the key. The stack of token states has its top first; a
  closing delimiter is accepted only in a state that an opening one has pushed, so the
  empty stack in that branch is never met.
\<close>

function Token :: "Decoder \<Rightarrow> (dec_error + token) \<times> Decoder" where
  "Token d =
     (case toks d of
        [] \<Rightarrow> (Inl EOF, d)
      | c # rest \<Rightarrow>
          (case c of
             TLBracket \<Rightarrow>
               if \<not> tokenValueAllowed d then (Inl SyntaxError, d)
               else (Inr (Delim LBracket),
                     d\<lparr>toks := rest, tokenStack := tokenState d # tokenStack d,
                       tokenState := tokenArrayStart\<rparr>)
           | TRBracket \<Rightarrow>
               if tokenState d \<noteq> tokenArrayStart \<and> tokenState d \<noteq> tokenArrayComma
               then (Inl SyntaxError, d)
               else (case tokenStack d of
                       [] \<Rightarrow> (Inl SyntaxError, d)
                     | st # below \<Rightarrow>
                         (Inr (Delim RBracket),
                          tokenValueEnd (d\<lparr>toks := rest, tokenState := st, tokenStack := below\<rparr>)))
           | TLBrace \<Rightarrow>
               if \<not> tokenValueAllowed d then (Inl SyntaxError, d)
               else (Inr (Delim LBrace),
                     d\<lparr>toks := rest, tokenStack := tokenState d # tokenStack d,
                       tokenState := tokenObjectStart\<rparr>)
           | TRBrace \<Rightarrow>
               if tokenState d \<noteq> tokenObjectStart \<and> tokenState d \<noteq> tokenObjectComma
               then (Inl SyntaxError, d)
               else (case tokenStack d of
                       [] \<Rightarrow> (Inl SyntaxError, d)
                     | st # below \<Rightarrow>
                         (Inr (Delim RBrace),
                          tokenValueEnd (d\<lparr>toks := rest, tokenState := st, tokenStack := below\<rparr>)))
           | TColon \<Rightarrow>
               if tokenState d \<noteq> tokenObjectColon then (Inl SyntaxError, d)
               else Token (d\<lparr>toks := rest, tokenState := tokenObjectValue\<rparr>)
           | TComma \<Rightarrow>
               if tokenState d = tokenArrayComma
               then Token (d\<lparr>toks := rest, tokenState := tokenArrayValue\<rparr>)
               else if tokenState d = tokenObjectComma
               then Token (d\<lparr>toks := rest, tokenState := tokenObjectKey\<rparr>)
               else (Inl SyntaxError, d)
           | TString key \<Rightarrow>
               if tokenState d = tokenObjectStart \<or> tokenState d = tokenObjectKey
               then (case DecodeValue (d\<lparr>tokenState := tokenTopValue\<rparr>) of
                       (Inl e, d') \<Rightarrow> (Inl e, d'\<lparr>tokenState := tokenState d\<rparr>)
                     | (Inr x, d') \<Rightarrow> (Inr (Value x), d'\<lparr>tokenState := tokenObjectColon\<rparr>))
               else if \<not> tokenValueAllowed d then (Inl SyntaxError, d)
               else (case DecodeValue d of
                       (Inl e, d') \<Rightarrow> (Inl e, d')
                     | (Inr x, d') \<Rightarrow> (Inr (Value x), d'))
           | TBadString \<Rightarrow>
               if tokenState d = tokenObjectStart \<or> tokenState d = tokenObjectKey
               then (case DecodeValue (d\<lparr>tokenState := tokenTopValue\<rparr>) of
                       (Inl e, d') \<Rightarrow> (Inl e, d'\<lparr>tokenState := tokenState d\<rparr>)
                     | (Inr x, d') \<Rightarrow> (Inr (Value x), d'\<lparr>tokenState := tokenObjectColon\<rparr>))
               else if \<not> tokenValueAllowed d then (Inl SyntaxError, d)
               else (case DecodeValue d of
                       (Inl e, d') \<Rightarrow> (Inl e, d')
                     | (Inr x, d') \<Rightarrow> (Inr (Value x), d'))
           | _ \<Rightarrow>
               if \<not> tokenValueAllowed d then (Inl SyntaxError, d)
               else (case DecodeValue d of
                       (Inl e, d') \<Rightarrow> (Inl e, d')
                     | (Inr x, d') \<Rightarrow> (Inr (Value x), d'))))"
  by pat_completeness auto
termination
  by (relation "measure (\<lambda>d. length (toks d))") auto

declare Token.simps [simp del]

section \<open>Validation\<close>

text \<open>
  Modelled from the spec: the package \<^verbatim>\<open>validate\<close> (\<^verbatim>\<open>validate.Check\<close> and the error it
  returns) is not among the sources; only the \<^verbatim>\<open>validate:"required"\<close> tags of the request
  struct and the messages the handler tests expect are. The spec's Record Validator:
  name, city, country and unique code are required, non-empty under a presence check
  that does not count white space; the violations come in the order of the fields; a
  valid candidate gives the empty list. A violation pairs the field's name with the
  reason; the message of the error is the JSON text the tests show,
  \<^verbatim>\<open>[{"field":"iata_code","error":"iata_code is a required field"}]\<close>.
\<close>

record ValidationViolation =
  field :: string
  reason :: string

definition is_space :: "char \<Rightarrow> bool" where
  "is_space c = (c \<in> set [CHR '' '', CHR 0x09, CHR 0x0A, CHR 0x0B, CHR 0x0C, CHR 0x0D])"

definition present :: "string \<Rightarrow> bool" where
  "present s = (\<exists>c \<in> set s. \<not> is_space c)"

definition required :: "string \<Rightarrow> string \<Rightarrow> ValidationViolation list" where
  "required f v = (if present v then [] else [\<lparr>field = f, reason = f @ '' is a required field''\<rparr>])"

definition Check :: "UpsertAirportRequest \<Rightarrow> ValidationViolation list" where
  "Check req =
     required ''name'' (Name req) @ required ''city'' (City req)
       @ required ''country'' (Country req) @ required ''iata_code'' (IataCode req)"

definition violation_json :: "ValidationViolation \<Rightarrow> string" where
  \<open>violation_json v = ''{"field":"'' @ field v @ ''","error":"'' @ reason v @ ''"}''\<close>

fun join_commas :: "string list \<Rightarrow> string" where
  "join_commas [] = []"
| "join_commas [x] = x"
| "join_commas (x # y # zs) = x @ '','' @ join_commas (y # zs)"

definition violations_Error :: "ValidationViolation list \<Rightarrow> string" where
  "violations_Error vs = ''['' @ join_commas (map violation_json vs) @ '']''"

section \<open>Persistence\<close>

text \<open>
  \<^verbatim>\<open>Airport\<close> of the package \<^verbatim>\<open>db/airports\<close>. Its fields carry the names of their json
  tags, which are the columns of the table as well.
\<close>

record Airport =
  name :: string
  city :: string
  country :: string
  iata_code :: string

definition ToAirport :: "UpsertAirportRequest \<Rightarrow> Airport" where
  "ToAirport u = \<lparr>name = Name u, city = City u, country = Country u, iata_code = IataCode u\<rparr>"

text \<open>
  The database handle: the rows of the table \<^verbatim>\<open>airports\<close> in the order of their
  insertion, and the error every statement fails with while the connection is unusable
  (\<^verbatim>\<open>sql.ErrConnDone\<close> in the package's test). The migration that creates the table is
  not among the sources; the conflict target of \<^verbatim>\<open>upsertQuery\<close> says that
  \<^verbatim>\<open>iata_code\<close> is unique in it.
\<close>

record sqldb =
  airports :: "Airport list"
  conn_err :: "string option"

text \<open>
  \<^verbatim>\<open>upsertQuery\<close>: insert the row; on a conflict on \<^verbatim>\<open>iata_code\<close> update name, city
  and country of the row that is there.
\<close>

definition upsertQuery :: "string \<Rightarrow> string \<Rightarrow> string \<Rightarrow> string \<Rightarrow> Airport list \<Rightarrow> Airport list" where
  "upsertQuery a1 a2 a3 a4 rows =
     (if \<exists>row \<in> set rows. iata_code row = a4
      then map (\<lambda>row. if iata_code row = a4 then row\<lparr>name := a1, city := a2, country := a3\<rparr> else row) rows
      else rows @ [\<lparr>name = a1, city = a2, country = a3, iata_code = a4\<rparr>])"

text \<open>
  \<^verbatim>\<open>db.ExecContext\<close> returns the error of the connection, or the handle with the
  statement applied to the table. \<^verbatim>\<open>Upsert\<close> wraps the error with
  \<^verbatim>\<open>upserting airport\<close>.
\<close>

definition ExecContext :: "sqldb \<Rightarrow> (Airport list \<Rightarrow> Airport list) \<Rightarrow> string + sqldb" where
  "ExecContext db query =
     (case conn_err db of
        Some e \<Rightarrow> Inl e
      | None \<Rightarrow> Inr (db\<lparr>airports := query (airports db)\<rparr>))"

definition Upsert :: "sqldb \<Rightarrow> Airport \<Rightarrow> string + sqldb" where
  "Upsert db airport =
     (case ExecContext db (upsertQuery (name airport) (city airport) (country airport) (iata_code airport)) of
        Inl err \<Rightarrow> Inl (''upserting airport: '' @ err)
      | Inr db' \<Rightarrow> Inr db')"

section \<open>The response\<close>

text \<open>
  What a handler leaves behind: the store, the response, and the calls it made to its
  collaborators, in order. The response is the status line once it is written, whether
  the headers have been flushed, and the JSON documents written to the body.
\<close>

record response =
  status :: "nat option"
  flushed :: bool
  docs :: "json list"

datatype event =
    EvToken delim | EvMore | EvDecode
  | EvCheck UpsertAirportRequest | EvUpsert Airport
  | EvFlush | EvRespondWithError nat string | EvRespond nat | EvRespondAfterFlush
  | EvReadAll | EvUnmarshal

record 'db world =
  db :: 'db
  resp :: response
  trace :: "event list"

definition new_response :: response where
  "new_response = \<lparr>status = None, flushed = False, docs = []\<rparr>"

definition start :: "'db \<Rightarrow> 'db world" where
  "start d = \<lparr>db = d, resp = new_response, trace = []\<rparr>"

definition log :: "event \<Rightarrow> 'db world \<Rightarrow> 'db world" where
  "log e s = s\<lparr>trace := trace s @ [e]\<rparr>"

text \<open>
  \<^verbatim>\<open>http.ResponseWriter\<close>: the first status written stands, a later one is dropped; a
  write to the body sends the status 200 first when none was written.
\<close>

definition WriteHeader :: "nat \<Rightarrow> response \<Rightarrow> response" where
  "WriteHeader c w = (case status w of None \<Rightarrow> w\<lparr>status := Some c\<rparr> | Some _ \<Rightarrow> w)"

definition Write :: "json \<Rightarrow> response \<Rightarrow> response" where
  "Write doc w = (WriteHeader 200 w)\<lparr>docs := docs w @ [doc]\<rparr>"

text \<open>
  Modelled from the spec: the package \<^verbatim>\<open>web\<close> (\<^verbatim>\<open>RespondWithError\<close>, \<^verbatim>\<open>Respond\<close>,
  \<^verbatim>\<open>RespondAfterFlush\<close>) is not among the sources. The spec's HTTP surface: an error is
  the status with the body \<^verbatim>\<open>{"error":"<message>"}\<close>, success is the status 200 with
  the body \<^verbatim>\<open>{"message":"airports upserted"}\<close>; once the response is committed no
  further status can be sent and only the body is written.
\<close>

definition ErrorResponse :: "string \<Rightarrow> json" where
  "ErrorResponse message = JObject [(''error'', JString message)]"

definition UpsertAirportResponse :: "string \<Rightarrow> json" where
  "UpsertAirportResponse message = JObject [(''message'', JString message)]"

definition RespondWithError :: "nat \<Rightarrow> string \<Rightarrow> 'db world \<Rightarrow> 'db world" where
  "RespondWithError c message s =
     log (EvRespondWithError c message) (s\<lparr>resp := Write (ErrorResponse message) (WriteHeader c (resp s))\<rparr>)"

definition Respond :: "nat \<Rightarrow> json \<Rightarrow> 'db world \<Rightarrow> 'db world" where
  "Respond c data s = log (EvRespond c) (s\<lparr>resp := Write data (WriteHeader c (resp s))\<rparr>)"

definition RespondAfterFlush :: "json \<Rightarrow> 'db world \<Rightarrow> 'db world" where
  "RespondAfterFlush data s = log EvRespondAfterFlush (s\<lparr>resp := Write data (resp s)\<rparr>)"

text \<open>
  \<^verbatim>\<open>responseController\<close>: \<^verbatim>\<open>Flush\<close> returns an error or commits the response, which
  sends the status 200 when none was written. \<open>FlushErr\<close> is the error it returns, as
  in the test double of the handler tests.
\<close>

record responseController =
  FlushErr :: "string option"

definition Flush :: "responseController \<Rightarrow> 'db world \<Rightarrow> string option \<times> 'db world" where
  "Flush ctr s =
     (case FlushErr ctr of
        Some e \<Rightarrow> (Some e, log EvFlush s)
      | None \<Rightarrow> (None, log EvFlush (s\<lparr>resp := (WriteHeader 200 (resp s))\<lparr>flushed := True\<rparr>\<rparr>)))"

section \<open>The handlers\<close>

abbreviation StatusOK :: nat where "StatusOK \<equiv> 200"
abbreviation StatusBadRequest :: nat where "StatusBadRequest \<equiv> 400"
abbreviation StatusInternalServerError :: nat where "StatusInternalServerError \<equiv> 500"

record handlerError =
  code :: nat
  msg :: string

text \<open>
  \<^verbatim>\<open>upsertAirport\<close> is a variable of the package, \<^verbatim>\<open>airports.Upsert\<close> unless a test
  replaces it: the handlers take it as an argument. It returns the message of its
  error, or the store with the airport upserted; a call that fails leaves the store as
  it was.
\<close>

type_synonym 'db upsert = "'db \<Rightarrow> Airport \<Rightarrow> string + 'db"

definition readExpectedToken :: "Decoder \<Rightarrow> delim \<Rightarrow> 'db world \<Rightarrow> dec_error option \<times> Decoder \<times> 'db world" where
  "readExpectedToken dec expected s =
     (case Token dec of
        (Inl err, dec') \<Rightarrow> (Some err, dec', log (EvToken expected) s)
      | (Inr tok, dec') \<Rightarrow>
          if tok \<noteq> Delim expected then (Some UnexpectedToken, dec', log (EvToken expected) s)
          else (None, dec', log (EvToken expected) s))"

definition processAirport :: "'db upsert \<Rightarrow> Decoder \<Rightarrow> 'db world \<Rightarrow> handlerError option \<times> Decoder \<times> 'db world" where
  "processAirport upsertAirport dec s =
     (case Decode dec of
        (Inl err, dec') \<Rightarrow>
          (Some \<lparr>code = StatusBadRequest, msg = ''invalid JSON airport structure''\<rparr>, dec', log EvDecode s)
      | (Inr req, dec') \<Rightarrow>
          (let s1 = log (EvCheck req) (log EvDecode s) in
           if Check req \<noteq> []
           then (Some \<lparr>code = StatusBadRequest, msg = violations_Error (Check req)\<rparr>, dec', s1)
           else (case upsertAirport (db s1) (ToAirport req) of
                   Inl err \<Rightarrow>
                     (Some \<lparr>code = StatusInternalServerError, msg = ''error upserting airport: '' @ err\<rparr>,
                      dec', log (EvUpsert (ToAirport req)) s1)
                 | Inr db' \<Rightarrow>
                     (None, dec', log (EvUpsert (ToAirport req)) (s1\<lparr>db := db'\<rparr>)))))"

lemma begin_value_consumes: "begin_value stk ts = Some (v, ts') \<Longrightarrow> length ts' < length ts"
  using parse_shorter(1) by blast

lemma Decode_consumes:
  assumes "Decode d = (Inr req, d')"
  shows "length (toks d') < length (toks d)"
proof -
  obtain v where dv: "DecodeValue d = (Inr v, d')"
    using assms by (auto simp: Decode_def split: prod.splits sum.splits)
  then obtain d1 where p: "tokenPrepareForDecode d = (None, d1)"
    by (auto simp: DecodeValue_def split: option.splits prod.splits if_splits)
  have le: "length (toks d1) \<le> length (toks d)"
    using p by (auto simp: tokenPrepareForDecode_def split: tokenState.splits list.splits if_splits)
  obtain d2 where r: "readValue d1 = (Inr v, d2)" and e: "d' = tokenValueEnd d2"
    using dv p by (auto simp: DecodeValue_def split: option.splits prod.splits if_splits sum.splits)
  have "length (toks d2) < length (toks d1)"
    using r by (auto simp: readValue_def Let_def split: option.splits dest: begin_value_consumes)
  moreover have "toks d' = toks d2"
    using e by (simp add: tokenValueEnd_def split: tokenState.splits)
  ultimately show ?thesis using le by simp
qed

lemma processAirport_consumes:
  assumes "processAirport up dec s = (None, dec', s')"
  shows "length (toks dec') < length (toks dec)"
  using assms
  by (auto simp: processAirport_def Let_def split: prod.splits sum.splits option.splits if_splits
      dest: Decode_consumes)

text \<open>
  The loop \<^verbatim>\<open>for dec.More() { ... }\<close> of \<^verbatim>\<open>processAirports\<close>. Each round that does
  not return has read a value, so the input gets shorter.
\<close>

function processAirports :: "'db upsert \<Rightarrow> Decoder \<Rightarrow> 'db world \<Rightarrow> handlerError option \<times> Decoder \<times> 'db world" where
  "processAirports upsertAirport dec s =
     (if More dec
      then (case processAirport upsertAirport dec (log EvMore s) of
              (Some herr, dec', s') \<Rightarrow> (Some herr, dec', s')
            | (None, dec', s') \<Rightarrow> processAirports upsertAirport dec' s')
      else (None, dec, log EvMore s))"
  by pat_completeness auto
termination
  by (relation "measure (\<lambda>(u, dec, s). length (toks dec))")
     (auto dest: processAirport_consumes [OF sym])

declare processAirports.simps [simp del]

text \<open>
  \<^verbatim>\<open>HandleUpsert\<close>: the streaming handler. The decoder is made on the request body
  (the buffered reader in between changes nothing of what is read).
\<close>

definition HandleUpsert :: "'db upsert \<Rightarrow> responseController \<Rightarrow> jtoken list \<Rightarrow> 'db world \<Rightarrow> 'db world" where
  "HandleUpsert upsertAirport ctr r_Body w =
     (let dec = NewDecoder r_Body in
      case readExpectedToken dec LBracket w of
        (Some err, dec1, w1) \<Rightarrow>
          RespondWithError StatusBadRequest ''invalid JSON: expected '[' at start'' w1
      | (None, dec1, w1) \<Rightarrow>
          (case processAirports upsertAirport dec1 w1 of
             (Some herr, dec2, w2) \<Rightarrow> RespondWithError (code herr) (msg herr) w2
           | (None, dec2, w2) \<Rightarrow>
               (case readExpectedToken dec2 RBracket w2 of
                  (Some err, dec3, w3) \<Rightarrow>
                    RespondWithError StatusBadRequest ''invalid JSON: expected ']' at end'' w3
                | (None, dec3, w3) \<Rightarrow>
                    (case Flush ctr w3 of
                       (Some err, w4) \<Rightarrow> RespondWithError StatusInternalServerError err w4
                     | (None, w4) \<Rightarrow>
                         RespondAfterFlush (UpsertAirportResponse ''airports upserted'') w4))))"

text \<open>
  The loop \<^verbatim>\<open>for _, request := range airportsToBeUpserted\<close> of the handler below; the
  flag says that the handler has responded and returned from inside the loop.
\<close>

fun range_requests :: "'db upsert \<Rightarrow> UpsertAirportRequest list \<Rightarrow> 'db world \<Rightarrow> bool \<times> 'db world" where
  "range_requests upsertAirport [] w = (False, w)"
| "range_requests upsertAirport (request # rest) w =
     (let w1 = log (EvCheck request) w in
      if Check request \<noteq> []
      then (True, RespondWithError StatusBadRequest (violations_Error (Check request)) w1)
      else (case upsertAirport (db w1) (ToAirport request) of
              Inl err \<Rightarrow>
                (True, RespondWithError StatusInternalServerError (''error upserting airport: '' @ err)
                         (log (EvUpsert (ToAirport request)) w1))
            | Inr db' \<Rightarrow>
                range_requests upsertAirport rest (log (EvUpsert (ToAirport request)) (w1\<lparr>db := db'\<rparr>))))"

text \<open>
  \<^verbatim>\<open>HandleNonStreamingUpsert\<close>: the handler that reads the whole body first.
  \<^verbatim>\<open>ioReadAll\<close> and \<^verbatim>\<open>jsonUnmarshal\<close> are variables of the package as well
  (\<^verbatim>\<open>io.ReadAll\<close> and \<^verbatim>\<open>json.Unmarshal\<close> unless a test replaces them). The calls to the
  garbage collector at the end change nothing that is observed here.
\<close>

definition HandleNonStreamingUpsert ::
  "(jtoken list \<Rightarrow> 'e1 + jtoken list) \<Rightarrow> (jtoken list \<Rightarrow> 'e2 + UpsertAirportRequest list) \<Rightarrow> 'db upsert
     \<Rightarrow> jtoken list \<Rightarrow> 'db world \<Rightarrow> 'db world" where
  "HandleNonStreamingUpsert ioReadAll jsonUnmarshal upsertAirport r_Body w =
     (case ioReadAll r_Body of
        Inl err \<Rightarrow> RespondWithError StatusBadRequest ''failed to read request body'' (log EvReadAll w)
      | Inr body \<Rightarrow>
          (case jsonUnmarshal body of
             Inl err \<Rightarrow>
               RespondWithError StatusBadRequest ''invalid JSON format'' (log EvUnmarshal (log EvReadAll w))
           | Inr airportsToBeUpserted \<Rightarrow>
               (case range_requests upsertAirport airportsToBeUpserted (log EvUnmarshal (log EvReadAll w)) of
                  (True, w') \<Rightarrow> w'
                | (False, w') \<Rightarrow> Respond StatusOK (UpsertAirportResponse ''airports upserted'') w')))"

section \<open>Notions used in the statements\<close>

subsection \<open>Where the decoder stands inside the array\<close>

text \<open>
  The decoder inside the top-level array: after the opening bracket, and after an
  element. \<open>array_position vs rest\<close> is where it stands once the elements \<open>vs\<close> are
  read and \<open>rest\<close> is still to come; \<open>next_element vs v\<close> are the tokens of the
  element \<open>v\<close> that follows the elements \<open>vs\<close>, with its comma unless it is the first.
\<close>

definition at_start :: "jtoken list \<Rightarrow> Decoder" where
  "at_start rest = \<lparr>toks = rest, tokenState = tokenArrayStart, tokenStack = [tokenTopValue], dec_err = None\<rparr>"

definition after_element :: "jtoken list \<Rightarrow> Decoder" where
  "after_element rest = \<lparr>toks = rest, tokenState = tokenArrayComma, tokenStack = [tokenTopValue], dec_err = None\<rparr>"

definition array_position :: "json list \<Rightarrow> jtoken list \<Rightarrow> Decoder" where
  "array_position vs rest = (if vs = [] then at_start rest else after_element rest)"

definition next_element :: "json list \<Rightarrow> json \<Rightarrow> jtoken list" where
  "next_element vs v = (if vs = [] then tokens_of v else TComma # tokens_of v)"

subsection \<open>Stores and calls\<close>

text \<open>
  \<open>persist_all up rs d\<close> is the store after upserting the requests \<open>rs\<close> in order,
  when every call succeeds. \<open>element_events r\<close> are the calls the streaming loop makes
  for an element that is decoded to \<open>r\<close>, valid and stored; \<open>request_events r\<close> are
  those of the loop of the handler that reads the whole body.
\<close>

fun persist_all :: "'db upsert \<Rightarrow> UpsertAirportRequest list \<Rightarrow> 'db \<Rightarrow> 'db option" where
  "persist_all up [] d = Some d"
| "persist_all up (r # rs) d = (case up d (ToAirport r) of Inl e \<Rightarrow> None | Inr d' \<Rightarrow> persist_all up rs d')"

definition element_events :: "UpsertAirportRequest \<Rightarrow> event list" where
  "element_events r = [EvMore, EvDecode, EvCheck r, EvUpsert (ToAirport r)]"

definition request_events :: "UpsertAirportRequest \<Rightarrow> event list" where
  "request_events r = [EvCheck r, EvUpsert (ToAirport r)]"

text \<open>
  \<open>failed_run d' rs evs c m\<close> is the run of the streaming handler that has read the
  opening bracket, has decoded, checked and stored the elements that gave the requests
  \<open>rs\<close>, has asked for more, has made the calls \<open>evs\<close> for the next element and has
  then answered with the status \<open>c\<close> and the message \<open>m\<close>, without a flush: the store
  is \<open>d'\<close> and the response is the last call.
\<close>

definition failed_run :: "'db \<Rightarrow> UpsertAirportRequest list \<Rightarrow> event list \<Rightarrow> nat \<Rightarrow> string \<Rightarrow> 'db world" where
  "failed_run d' rs evs c m =
     \<lparr>db = d',
      resp = \<lparr>status = Some c, flushed = False, docs = [ErrorResponse m]\<rparr>,
      trace = EvToken LBracket # concat (map element_events rs) @ EvMore # evs @ [EvRespondWithError c m]\<rparr>"

subsection \<open>Order of the calls\<close>

text \<open>
  \<open>precedes a b tr\<close>: somewhere in \<open>tr\<close> an \<open>a\<close> stands before a \<open>b\<close>.
  \<open>is_loop_event\<close> holds of the calls the loop over the elements makes.
  \<open>checked_upserts tr\<close>: every upsert in \<open>tr\<close> comes directly after the check of the
  request it stores, and that check found no violation.
\<close>

fun precedes :: "'a \<Rightarrow> 'a \<Rightarrow> 'a list \<Rightarrow> bool" where
  "precedes a b [] = False"
| "precedes a b (e # es) = ((e = a \<and> b \<in> set es) \<or> precedes a b es)"

fun is_loop_event :: "event \<Rightarrow> bool" where
  "is_loop_event EvMore = True"
| "is_loop_event EvDecode = True"
| "is_loop_event (EvCheck r) = True"
| "is_loop_event (EvUpsert a) = True"
| "is_loop_event e = False"

definition checked_upserts :: "event list \<Rightarrow> bool" where
  "checked_upserts tr =
     (\<forall>pre a post. tr = pre @ EvUpsert a # post \<longrightarrow>
        (\<exists>pre' req. pre = pre' @ [EvCheck req] \<and> Check req = [] \<and> a = ToAirport req))"

subsection \<open>Requests used as examples\<close>

text \<open>
  The airport of the handler tests, as JSON and as the request it decodes to; an
  element without a code and one with the code \<^verbatim>\<open>BAD\<close>; the table with no rows and the
  table with the one airport; and a double for \<^verbatim>\<open>upsertAirport\<close> that fails on one
  code and is \<^verbatim>\<open>airports.Upsert\<close> otherwise.
\<close>

definition congonhas :: json where
  "congonhas = JObject [(''name'', JString ''Aeroporto de Congonhas''), (''city'', JString ''Sao Paulo''),
     (''country'', JString ''Brasil''), (''iata_code'', JString ''CGH'')]"

definition congonhas_request :: UpsertAirportRequest where
  "congonhas_request = \<lparr>Name = ''Aeroporto de Congonhas'', City = ''Sao Paulo'', Country = ''Brasil'', IataCode = ''CGH''\<rparr>"

definition no_code :: json where
  "no_code = JObject [(''name'', JString ''A''), (''city'', JString ''B''), (''country'', JString ''C'')]"

definition bad_code :: json where
  "bad_code = JObject [(''name'', JString ''A''), (''city'', JString ''B''), (''country'', JString ''C''),
     (''iata_code'', JString ''BAD'')]"

definition bad_code_request :: UpsertAirportRequest where
  "bad_code_request = \<lparr>Name = ''A'', City = ''B'', Country = ''C'', IataCode = ''BAD''\<rparr>"

definition empty_db :: sqldb where
  "empty_db = \<lparr>airports = [], conn_err = None\<rparr>"

definition one_row :: sqldb where
  "one_row = \<lparr>airports = [ToAirport congonhas_request], conn_err = None\<rparr>"

definition failing_on :: "string \<Rightarrow> sqldb upsert" where
  "failing_on c d a = (if iata_code a = c then Inl ''database error'' else Upsert d a)"

subsection \<open>The doubles of the handler tests\<close>

text \<open>
  The two doubles the handler tests put in place of \<^verbatim>\<open>upsertAirport\<close>: one returns no
  error and stores nothing, the other returns the error \<^verbatim>\<open>database error\<close>. The tests
  pass no database, so the store is a unit.
\<close>

definition storing_nothing :: "unit upsert" where
  "storing_nothing d a = Inr d"

definition database_error :: "unit upsert" where
  "database_error d a = Inl ''database error''"

section \<open>Lemmas\<close>

subsection \<open>Reading the tokens of a value\<close>

text \<open>
  Reading the tokens of a value gives the value back and leaves what follows it: the
  reader accepts every well-formed value, whatever stands behind it.
\<close>

lemma read_elements:
  assumes "\<And>w stk rest. w \<in> set ws \<Longrightarrow> begin_value stk (tokens_of w @ rest) = end_value w stk rest"
  shows "end_value v (FArr acc # stk) (concat (map (\<lambda>w. TComma # tokens_of w) ws) @ TRBracket # rest)
         = end_value (JArray (acc @ v # ws)) stk rest"
  using assms by (induction ws arbitrary: v acc) auto

lemma read_members:
  assumes "\<And>w stk rest. w \<in> snd ` set ns \<Longrightarrow> begin_value stk (tokens_of w @ rest) = end_value w stk rest"
  shows "end_value v (FObj acc k # stk)
           (concat (map (\<lambda>(k', w). TComma # TString k' # TColon # tokens_of w) ns) @ TRBrace # rest)
         = end_value (JObject (acc @ (k, v) # ns)) stk rest"
  using assms
proof (induction ns arbitrary: v k acc)
  case Nil
  then show ?case by simp
next
  case (Cons n ns)
  obtain k' w where n: "n = (k', w)" by (cases n)
  have w: "begin_value (FObj (acc @ [(k, v)]) k' # stk) (tokens_of w @ r) = end_value w (FObj (acc @ [(k, v)]) k' # stk) r" for r
    using Cons.prems [of w] n by simp
  have "end_value w (FObj (acc @ [(k, v)]) k' # stk)
          (concat (map (\<lambda>(k', w). TComma # TString k' # TColon # tokens_of w) ns) @ TRBrace # rest)
        = end_value (JObject ((acc @ [(k, v)]) @ (k', w) # ns)) stk rest"
    using Cons.prems by (intro Cons.IH) simp
  then show ?case using n w by simp
qed

lemma tokens_of_start:
  "\<exists>t ts. tokens_of v = t # ts \<and> t \<noteq> TRBracket \<and> t \<noteq> TRBrace \<and> t \<noteq> TComma \<and> t \<noteq> TColon \<and> t \<noteq> TInvalid"
  by (cases v) (auto split: list.splits)

lemma read_tokens_of: "begin_value stk (tokens_of v @ rest) = end_value v stk rest"
proof (induction v arbitrary: stk rest)
  case (JArray vs)
  show ?case
  proof (cases vs)
    case Nil
    then show ?thesis by simp
  next
    case (Cons v ws)
    obtain t ts where t: "tokens_of v = t # ts" "t \<noteq> TRBracket"
      using tokens_of_start by blast
    have "begin_value stk (tokens_of (JArray vs) @ rest)
        = begin_value (FArr [] # stk) (tokens_of v @ concat (map (\<lambda>w. TComma # tokens_of w) ws) @ TRBracket # rest)"
      using t Cons by (simp split: jtoken.splits)
    also have "\<dots> = end_value v (FArr [] # stk) (concat (map (\<lambda>w. TComma # tokens_of w) ws) @ TRBracket # rest)"
      using JArray.IH [of v] Cons by simp
    also have "\<dots> = end_value (JArray ([] @ v # ws)) stk rest"
      using JArray.IH Cons by (intro read_elements) simp
    finally show ?thesis using Cons by simp
  qed
next
  case (JObject ms)
  show ?case
  proof (cases ms)
    case Nil
    then show ?thesis by simp
  next
    case (Cons m ns)
    obtain k v where m: "m = (k, v)" by (cases m)
    have IH: "\<And>w stk rest. w \<in> snd ` set ms \<Longrightarrow> begin_value stk (tokens_of w @ rest) = end_value w stk rest"
      using JObject.IH by force
    have "begin_value stk (tokens_of (JObject ms) @ rest)
        = begin_value (FObj [] k # stk) (tokens_of v @ concat (map (\<lambda>(k', w). TComma # TString k' # TColon # tokens_of w) ns) @ TRBrace # rest)"
      using Cons m by simp
    also have "\<dots> = end_value v (FObj [] k # stk) (concat (map (\<lambda>(k', w). TComma # TString k' # TColon # tokens_of w) ns) @ TRBrace # rest)"
      using IH [of v] Cons m by simp
    also have "\<dots> = end_value (JObject ([] @ (k, v) # ns)) stk rest"
      using IH Cons by (intro read_members) simp
    finally show ?thesis using Cons m by simp
  qed
qed simp_all

lemma tokens_of_array: "tokens_of (JArray vs) = TLBracket # array_prefix vs @ [TRBracket]"
  by (cases vs) (simp_all add: array_prefix_def)

lemma array_prefix_snoc: "array_prefix (vs @ [v]) = array_prefix vs @ next_element vs v"
  by (cases vs) (simp_all add: array_prefix_def next_element_def)

text \<open>
  Conversely, whatever the reader accepts is the token sequence of the value it
  returns, followed by what it leaves. The statement is generalised over the stack: a
  value that is begun is read to its end, an open array is read to its closing bracket
  and an open object to its closing brace.
\<close>

lemma read_sound_aux:
  "(begin_value stk ts = Some res \<longrightarrow>
      (\<exists>v r. ts = tokens_of v @ r \<and> end_value v stk r = Some res))
   \<and> (\<forall>v acc. end_value v (FArr acc # stk) ts = Some res \<longrightarrow>
        (\<exists>ws r. ts = concat (map (\<lambda>w. TComma # tokens_of w) ws) @ TRBracket # r
               \<and> end_value (JArray (acc @ v # ws)) stk r = Some res))
   \<and> (\<forall>v acc k. end_value v (FObj acc k # stk) ts = Some res \<longrightarrow>
        (\<exists>ns r. ts = concat (map (\<lambda>(k', w). TComma # TString k' # TColon # tokens_of w) ns) @ TRBrace # r
               \<and> end_value (JObject (acc @ (k, v) # ns)) stk r = Some res))
   \<and> (\<forall>acc. begin_key acc stk ts = Some res \<longrightarrow>
        (\<exists>k v r. ts = TString k # TColon # tokens_of v @ r \<and> end_value v (FObj acc k # stk) r = Some res))"
proof (induction "length ts" arbitrary: ts stk res rule: less_induct)
  case less
  note IH = less.hyps
  have len: "length r \<le> length (tokens_of v @ r)" for v r by simp
  \<comment> \<open>an array whose first element starts at \<open>ts0\<close>\<close>
  have arr: "\<exists>ws r. r1 = concat (map (\<lambda>w. TComma # tokens_of w) ws) @ TRBracket # r
               \<and> end_value (JArray (acc @ v # ws)) stk' r = Some res'"
    if "end_value v (FArr acc # stk') r1 = Some res'" "length r1 < length ts" for v acc stk' r1 res'
    by (rule IH [OF that(2), THEN conjunct2, THEN conjunct1, rule_format, OF that(1)])
  have obj: "\<exists>ns r. r1 = concat (map (\<lambda>(k', w). TComma # TString k' # TColon # tokens_of w) ns) @ TRBrace # r
               \<and> end_value (JObject (acc @ (k, v) # ns)) stk' r = Some res'"
    if "end_value v (FObj acc k # stk') r1 = Some res'" "length r1 < length ts" for v acc k stk' r1 res'
    by (rule IH [OF that(2), THEN conjunct2, THEN conjunct2, THEN conjunct1, rule_format, OF that(1)])
  have val: "\<exists>v r. ts0 = tokens_of v @ r \<and> end_value v stk' r = Some res'"
    if "begin_value stk' ts0 = Some res'" "length ts0 < length ts" for stk' ts0 res'
    by (rule IH [OF that(2), THEN conjunct1, rule_format, OF that(1)])
  have key: "\<exists>k v r. ts0 = TString k # TColon # tokens_of v @ r \<and> end_value v (FObj acc k # stk') r = Some res'"
    if "begin_key acc stk' ts0 = Some res'" "length ts0 < length ts" for acc stk' ts0 res'
    by (rule IH [OF that(2), THEN conjunct2, THEN conjunct2, THEN conjunct2, rule_format, OF that(1)])
  have P1: "\<exists>v r. ts = tokens_of v @ r \<and> end_value v stk r = Some res"
    if b: "begin_value stk ts = Some res"
  proof (cases ts)
    case Nil
    then show ?thesis using b by simp
  next
    case (Cons t ts0)
    note ts = Cons
    show ?thesis
    proof (cases t)
      case TNull
      then have "ts = tokens_of JNull @ ts0" "end_value JNull stk ts0 = Some res" using b ts by simp_all
      then show ?thesis by blast
    next
      case TTrue
      then have "ts = tokens_of (JBool True) @ ts0" "end_value (JBool True) stk ts0 = Some res" using b ts by simp_all
      then show ?thesis by blast
    next
      case TFalse
      then have "ts = tokens_of (JBool False) @ ts0" "end_value (JBool False) stk ts0 = Some res" using b ts by simp_all
      then show ?thesis by blast
    next
      case (TNumber n)
      then have "ts = tokens_of (JNumber n) @ ts0" "end_value (JNumber n) stk ts0 = Some res" using b ts by simp_all
      then show ?thesis by blast
    next
      case (TString s)
      then have "ts = tokens_of (JString s) @ ts0" "end_value (JString s) stk ts0 = Some res" using b ts by simp_all
      then show ?thesis by blast
    next
      case TLBracket
      show ?thesis
      proof (cases "\<exists>ts'. ts0 = TRBracket # ts'")
        case True
        then obtain ts' where ts': "ts0 = TRBracket # ts'" by blast
        then have "ts = tokens_of (JArray []) @ ts'" "end_value (JArray []) stk ts' = Some res"
          using b ts TLBracket by simp_all
        then show ?thesis by blast
      next
        case False
        have "begin_value (FArr [] # stk) ts0 = Some res"
        proof (cases ts0)
          case Nil
          then show ?thesis using b ts TLBracket by simp
        next
          case (Cons a as)
          then have "a \<noteq> TRBracket" using False by simp
          then show ?thesis using b ts TLBracket Cons by (cases a) simp_all
        qed
        from val [OF this] obtain v r1 where v: "ts0 = tokens_of v @ r1" "end_value v (FArr [] # stk) r1 = Some res"
          using ts by auto
        have "length r1 < length ts" using v(1) ts by simp
        from arr [OF v(2) this] obtain ws r where
          r: "r1 = concat (map (\<lambda>w. TComma # tokens_of w) ws) @ TRBracket # r"
             "end_value (JArray ([] @ v # ws)) stk r = Some res" by blast
        have "ts = tokens_of (JArray (v # ws)) @ r" using ts TLBracket v(1) r(1) by simp
        moreover have "end_value (JArray (v # ws)) stk r = Some res" using r(2) by simp
        ultimately show ?thesis by blast
      qed
    next
      case TLBrace
      show ?thesis
      proof (cases "\<exists>ts'. ts0 = TRBrace # ts'")
        case True
        then obtain ts' where ts': "ts0 = TRBrace # ts'" by blast
        then have "ts = tokens_of (JObject []) @ ts'" "end_value (JObject []) stk ts' = Some res"
          using b ts TLBrace by simp_all
        then show ?thesis by blast
      next
        case False
        have "begin_key [] stk ts0 = Some res"
        proof (cases ts0)
          case Nil
          then show ?thesis using b ts TLBrace by simp
        next
          case (Cons a as)
          then have "a \<noteq> TRBrace" using False by simp
          then show ?thesis using b ts TLBrace Cons by (cases a) simp_all
        qed
        from key [OF this] obtain k v r1 where
          v: "ts0 = TString k # TColon # tokens_of v @ r1" "end_value v (FObj [] k # stk) r1 = Some res"
          using ts by auto
        have "length r1 < length ts" using v(1) ts by simp
        from obj [OF v(2) this] obtain ns r where
          r: "r1 = concat (map (\<lambda>(k', w). TComma # TString k' # TColon # tokens_of w) ns) @ TRBrace # r"
             "end_value (JObject ([] @ (k, v) # ns)) stk r = Some res" by blast
        have "ts = tokens_of (JObject ((k, v) # ns)) @ r" using ts TLBrace v(1) r(1) by simp
        moreover have "end_value (JObject ((k, v) # ns)) stk r = Some res" using r(2) by simp
        ultimately show ?thesis by blast
      qed
    qed (use b ts in simp_all)
  qed
  have P2: "\<exists>ws r. ts = concat (map (\<lambda>w. TComma # tokens_of w) ws) @ TRBracket # r
               \<and> end_value (JArray (acc @ v # ws)) stk r = Some res"
    if e: "end_value v (FArr acc # stk) ts = Some res" for v acc
  proof (cases ts)
    case Nil
    then show ?thesis using e by simp
  next
    case (Cons t ts0)
    show ?thesis
    proof (cases t)
      case TComma
      then have "begin_value (FArr (acc @ [v]) # stk) ts0 = Some res" using e Cons by simp
      from val [OF this] obtain w r1 where
        w: "ts0 = tokens_of w @ r1" "end_value w (FArr (acc @ [v]) # stk) r1 = Some res"
        using Cons by auto
      have "length r1 < length ts" using w(1) Cons by simp
      from arr [OF w(2) this] obtain ws r where
        r: "r1 = concat (map (\<lambda>w. TComma # tokens_of w) ws) @ TRBracket # r"
           "end_value (JArray ((acc @ [v]) @ w # ws)) stk r = Some res" by blast
      have "ts = concat (map (\<lambda>w. TComma # tokens_of w) (w # ws)) @ TRBracket # r"
        using Cons TComma w(1) r(1) by simp
      moreover have "end_value (JArray (acc @ v # w # ws)) stk r = Some res" using r(2) by simp
      ultimately show ?thesis by blast
    next
      case TRBracket
      then have "ts = concat (map (\<lambda>w. TComma # tokens_of w) []) @ TRBracket # ts0"
        "end_value (JArray (acc @ v # [])) stk ts0 = Some res" using e Cons by simp_all
      then show ?thesis by blast
    qed (use e Cons in simp_all)
  qed
  have P3: "\<exists>ns r. ts = concat (map (\<lambda>(k', w). TComma # TString k' # TColon # tokens_of w) ns) @ TRBrace # r
               \<and> end_value (JObject (acc @ (k, v) # ns)) stk r = Some res"
    if e: "end_value v (FObj acc k # stk) ts = Some res" for v acc k
  proof (cases ts)
    case Nil
    then show ?thesis using e by simp
  next
    case (Cons t ts0)
    show ?thesis
    proof (cases t)
      case TComma
      then have "begin_key (acc @ [(k, v)]) stk ts0 = Some res" using e Cons by simp
      from key [OF this] obtain k' w r1 where
        w: "ts0 = TString k' # TColon # tokens_of w @ r1"
           "end_value w (FObj (acc @ [(k, v)]) k' # stk) r1 = Some res"
        using Cons by auto
      have "length r1 < length ts" using w(1) Cons by simp
      from obj [OF w(2) this] obtain ns r where
        r: "r1 = concat (map (\<lambda>(k', w). TComma # TString k' # TColon # tokens_of w) ns) @ TRBrace # r"
           "end_value (JObject ((acc @ [(k, v)]) @ (k', w) # ns)) stk r = Some res" by blast
      have "ts = concat (map (\<lambda>(k', w). TComma # TString k' # TColon # tokens_of w) ((k', w) # ns)) @ TRBrace # r"
        using Cons TComma w(1) r(1) by simp
      moreover have "end_value (JObject (acc @ (k, v) # (k', w) # ns)) stk r = Some res" using r(2) by simp
      ultimately show ?thesis by blast
    next
      case TRBrace
      then have "ts = concat (map (\<lambda>(k', w). TComma # TString k' # TColon # tokens_of w) []) @ TRBrace # ts0"
        "end_value (JObject (acc @ (k, v) # [])) stk ts0 = Some res" using e Cons by simp_all
      then show ?thesis by blast
    qed (use e Cons in simp_all)
  qed
  have P4: "\<exists>k v r. ts = TString k # TColon # tokens_of v @ r \<and> end_value v (FObj acc k # stk) r = Some res"
    if k: "begin_key acc stk ts = Some res" for acc
  proof -
    from k obtain k' ts' where ts: "ts = TString k' # TColon # ts'"
      and b: "begin_value (FObj acc k' # stk) ts' = Some res"
      by (auto split: list.splits jtoken.splits)
    have "length ts' < length ts" using ts by simp
    from val [OF b this] show ?thesis using ts by auto
  qed
  show ?case
    apply (intro conjI allI impI)
       apply (erule P1)
      apply (erule P2)
     apply (erule P3)
    apply (erule P4)
    done
qed

lemma begin_value_sound:
  assumes "begin_value [] ts = Some (v, rest)"
  shows "ts = tokens_of v @ rest"
proof -
  from read_sound_aux [of "[]" ts "(v, rest)"] assms
  obtain v' r where "ts = tokens_of v' @ r" "end_value v' [] r = Some (v, rest)" by blast
  then show ?thesis by simp
qed

lemma begin_value_iff: "begin_value [] ts = Some (v, rest) \<longleftrightarrow> ts = tokens_of v @ rest"
  using begin_value_sound [of ts v rest] read_tokens_of [of "[]" v rest] by auto

subsection \<open>The decoder inside the array\<close>

lemma Token_open: "Token (NewDecoder (TLBracket # ts)) = (Inr (Delim LBracket), at_start ts)"
  by (simp add: Token.simps NewDecoder_def at_start_def tokenValueAllowed_def)

lemma More_at_start: "More (at_start (tokens_of v @ rest))"
  using tokens_of_start [of v] by (auto simp: More_def at_start_def)

lemma More_after_element: "More (after_element (TComma # ts))"
  by (simp add: More_def after_element_def)

lemma Decode_at_start:
  "Decode (at_start (tokens_of v @ rest)) = (unmarshal_request v, after_element rest)"
  by (simp add: Decode_def DecodeValue_def at_start_def after_element_def tokenPrepareForDecode_def
        tokenValueAllowed_def readValue_def read_tokens_of tokenValueEnd_def)

lemma Decode_after_element:
  "Decode (after_element (TComma # tokens_of v @ rest)) = (unmarshal_request v, after_element rest)"
  by (simp add: Decode_def DecodeValue_def after_element_def tokenPrepareForDecode_def
        tokenValueAllowed_def readValue_def read_tokens_of tokenValueEnd_def)

lemma More_next_element: "More (array_position vs (next_element vs v @ rest))"
  by (simp add: array_position_def next_element_def More_at_start More_after_element)

lemma Decode_next_element:
  "Decode (array_position vs (next_element vs v @ rest)) = (unmarshal_request v, after_element rest)"
  by (simp add: array_position_def next_element_def Decode_at_start Decode_after_element)

lemma readExpectedToken_open:
  "readExpectedToken (NewDecoder (TLBracket # ts)) LBracket w = (None, at_start ts, log (EvToken LBracket) w)"
  by (simp add: readExpectedToken_def Token_open)

lemma readExpectedToken_close:
  "\<exists>dec'. readExpectedToken (array_position vs (TRBracket # ts)) RBracket w = (None, dec', log (EvToken RBracket) w)"
  by (simp add: readExpectedToken_def Token.simps array_position_def at_start_def after_element_def)

lemma readExpectedToken_world:
  "readExpectedToken dec e s = (r, dec', s') \<Longrightarrow> s' = log (EvToken e) s"
  by (auto simp: readExpectedToken_def split: prod.splits sum.splits if_splits)

lemma Token_not_open:
  assumes "\<forall>rest. body \<noteq> TLBracket # rest"
  shows "fst (Token (NewDecoder body)) \<noteq> Inr (Delim LBracket)"
proof (cases body)
  case Nil
  then show ?thesis by (simp add: Token.simps NewDecoder_def)
next
  case (Cons c rest)
  then have "c \<noteq> TLBracket" using assms by simp
  then show ?thesis using Cons
    by (cases c)
       (auto simp: Token.simps NewDecoder_def tokenValueAllowed_def
          split: prod.splits sum.splits)
qed

lemma readExpectedToken_not_open:
  assumes "\<forall>rest. body \<noteq> TLBracket # rest"
  shows "\<exists>err dec'. readExpectedToken (NewDecoder body) LBracket w = (Some err, dec', log (EvToken LBracket) w)"
  using Token_not_open [OF assms]
  by (auto simp: readExpectedToken_def split: prod.splits sum.splits)

subsection \<open>The streaming handler on well-formed elements\<close>

lemma processAirport_good:
  assumes "Decode dec = (Inr r, dec')" "Check r = []" "up (db s) (ToAirport r) = Inr d'"
  shows "processAirport up dec (log EvMore s) = (None, dec', s\<lparr>db := d', trace := trace s @ element_events r\<rparr>)"
  using assms by (simp add: processAirport_def Let_def log_def element_events_def)

lemma loop_elements:
  assumes "list_all2 (\<lambda>v r. unmarshal_request v = Inr r) vs rs"
    and "\<forall>r \<in> set rs. Check r = []"
    and "persist_all up rs (db s) = Some d'"
  shows "processAirports up (after_element (concat (map (\<lambda>v. TComma # tokens_of v) vs) @ rest)) s
       = processAirports up (after_element rest) (s\<lparr>db := d', trace := trace s @ concat (map element_events rs)\<rparr>)"
  using assms
proof (induction vs rs arbitrary: s rule: list_all2_induct)
  case Nil
  then show ?case by auto
next
  case (Cons v vs r rs)
  obtain d1 where d1: "up (db s) (ToAirport r) = Inr d1" and rest: "persist_all up rs d1 = Some d'"
    using Cons.prems by (auto split: sum.splits)
  let ?s1 = "s\<lparr>db := d1, trace := trace s @ element_events r\<rparr>"
  have step: "processAirport up (after_element (TComma # tokens_of v @ concat (map (\<lambda>v. TComma # tokens_of v) vs) @ rest)) (log EvMore s)
      = (None, after_element (concat (map (\<lambda>v. TComma # tokens_of v) vs) @ rest), ?s1)"
    using Cons.hyps(1) Cons.prems d1 by (intro processAirport_good) (simp_all add: Decode_after_element)
  have "processAirports up (after_element (concat (map (\<lambda>v. TComma # tokens_of v) (v # vs)) @ rest)) s
      = processAirports up (after_element (concat (map (\<lambda>v. TComma # tokens_of v) vs) @ rest)) ?s1"
    using step by (subst processAirports.simps) (simp add: More_after_element)
  also have "\<dots> = processAirports up (after_element rest) (?s1\<lparr>db := d', trace := trace ?s1 @ concat (map element_events rs)\<rparr>)"
    using Cons.prems rest by (intro Cons.IH) simp_all
  finally show ?case by simp
qed

lemma loop_prefix:
  assumes "list_all2 (\<lambda>v r. unmarshal_request v = Inr r) vs rs"
    and "\<forall>r \<in> set rs. Check r = []"
    and "persist_all up rs (db s) = Some d'"
  shows "processAirports up (at_start (array_prefix vs @ rest)) s
       = processAirports up (array_position vs rest) (s\<lparr>db := d', trace := trace s @ concat (map element_events rs)\<rparr>)"
proof (cases vs)
  case Nil
  then show ?thesis using assms by (auto simp: array_prefix_def array_position_def)
next
  case (Cons v ws)
  then obtain r rs' where rs: "rs = r # rs'" and v: "unmarshal_request v = Inr r"
    and ws: "list_all2 (\<lambda>v r. unmarshal_request v = Inr r) ws rs'"
    using assms(1) by (auto simp: list_all2_Cons1)
  obtain d1 where d1: "up (db s) (ToAirport r) = Inr d1" and rest: "persist_all up rs' d1 = Some d'"
    using assms(3) rs by (auto split: sum.splits)
  let ?s1 = "s\<lparr>db := d1, trace := trace s @ element_events r\<rparr>"
  let ?tail = "concat (map (\<lambda>v. TComma # tokens_of v) ws) @ rest"
  have step: "processAirport up (at_start (tokens_of v @ ?tail)) (log EvMore s) = (None, after_element ?tail, ?s1)"
    using v assms(2) rs d1 by (intro processAirport_good) (simp_all add: Decode_at_start)
  have "processAirports up (at_start (array_prefix vs @ rest)) s = processAirports up (after_element ?tail) ?s1"
    using step Cons by (subst processAirports.simps) (simp add: More_at_start array_prefix_def)
  also have "\<dots> = processAirports up (after_element rest) (?s1\<lparr>db := d', trace := trace ?s1 @ concat (map element_events rs')\<rparr>)"
    using ws assms(2) rs rest by (intro loop_elements) simp_all
  finally show ?thesis using Cons rs by (simp add: array_position_def)
qed

lemma processAirports_at_close:
  "processAirports up (array_position vs (TRBracket # ts)) s = (None, array_position vs (TRBracket # ts), log EvMore s)"
  by (subst processAirports.simps) (simp add: array_position_def More_def at_start_def after_element_def)

lemma streaming_valid:
  assumes "list_all2 (\<lambda>v r. unmarshal_request v = Inr r) vs rs"
    and "\<forall>r \<in> set rs. Check r = []"
    and "persist_all up rs d = Some d'"
  shows "HandleUpsert up ctr (tokens_of (JArray vs)) (start d) =
     (case FlushErr ctr of
        None \<Rightarrow>
          \<lparr>db = d',
           resp = \<lparr>status = Some StatusOK, flushed = True,
                    docs = [UpsertAirportResponse ''airports upserted'']\<rparr>,
           trace = EvToken LBracket # concat (map element_events rs)
                     @ [EvMore, EvToken RBracket, EvFlush, EvRespondAfterFlush]\<rparr>
      | Some e \<Rightarrow>
          \<lparr>db = d',
           resp = \<lparr>status = Some StatusInternalServerError, flushed = False, docs = [ErrorResponse e]\<rparr>,
           trace = EvToken LBracket # concat (map element_events rs)
                     @ [EvMore, EvToken RBracket, EvFlush, EvRespondWithError StatusInternalServerError e]\<rparr>)"
proof -
  let ?w1 = "log (EvToken LBracket) (start d)"
  let ?w2 = "?w1\<lparr>db := d', trace := trace ?w1 @ concat (map element_events rs)\<rparr>"
  have loop: "processAirports up (at_start (array_prefix vs @ [TRBracket])) ?w1
      = (None, array_position vs [TRBracket], log EvMore ?w2)"
    using loop_prefix [OF assms(1,2), of up ?w1 d' "[TRBracket]"] assms(3)
    by (simp add: processAirports_at_close log_def start_def)
  obtain dec' where close: "readExpectedToken (array_position vs [TRBracket]) RBracket (log EvMore ?w2)
      = (None, dec', log (EvToken RBracket) (log EvMore ?w2))"
    using readExpectedToken_close by blast
  show ?thesis
    unfolding tokens_of_array
    using loop close
    by (simp add: HandleUpsert_def readExpectedToken_open Flush_def
          RespondWithError_def RespondAfterFlush_def log_def start_def new_response_def Write_def WriteHeader_def
          split: option.splits)
qed

lemma streaming_stops:
  assumes "list_all2 (\<lambda>v r. unmarshal_request v = Inr r) vs rs"
    and "\<forall>r \<in> set rs. Check r = []"
    and "persist_all up rs d = Some d'"
    and "More (array_position vs rest)"
    and "processAirport up (array_position vs rest)
           \<lparr>db = d', resp = new_response, trace = EvToken LBracket # concat (map element_events rs) @ [EvMore]\<rparr>
         = (Some herr, dec', w')"
  shows "HandleUpsert up ctr (TLBracket # array_prefix vs @ rest) (start d) = RespondWithError (code herr) (msg herr) w'"
proof -
  let ?w1 = "log (EvToken LBracket) (start d)"
  let ?w2 = "?w1\<lparr>db := d', trace := trace ?w1 @ concat (map element_events rs)\<rparr>"
  have w2: "log EvMore ?w2 = \<lparr>db = d', resp = new_response, trace = EvToken LBracket # concat (map element_events rs) @ [EvMore]\<rparr>"
    by (simp add: log_def start_def)
  have "processAirports up (at_start (array_prefix vs @ rest)) ?w1 = processAirports up (array_position vs rest) ?w2"
    using loop_prefix [OF assms(1,2), of up ?w1 d' rest] assms(3) by (simp add: log_def start_def)
  also have "\<dots> = (Some herr, dec', w')"
    using assms(4,5) w2 by (subst processAirports.simps) simp
  finally show ?thesis
    by (simp add: HandleUpsert_def readExpectedToken_open)
qed

lemma streaming_stops_run:
  assumes "list_all2 (\<lambda>v r. unmarshal_request v = Inr r) vs rs"
    and "\<forall>r \<in> set rs. Check r = []"
    and "persist_all up rs d = Some d'"
    and "More (array_position vs rest)"
    and "processAirport up (array_position vs rest)
           \<lparr>db = d', resp = new_response, trace = EvToken LBracket # concat (map element_events rs) @ [EvMore]\<rparr>
         = (Some \<lparr>code = c, msg = m\<rparr>, dec',
            \<lparr>db = d', resp = new_response,
             trace = EvToken LBracket # concat (map element_events rs) @ EvMore # evs\<rparr>)"
  shows "HandleUpsert up ctr (TLBracket # array_prefix vs @ rest) (start d) = failed_run d' rs evs c m"
  using streaming_stops [OF assms, of ctr]
  by (simp add: failed_run_def RespondWithError_def log_def new_response_def Write_def WriteHeader_def)

lemma decodes_of_elements: "length (filter (\<lambda>e. e = EvDecode) (concat (map element_events rs))) = length rs"
  by (induction rs) (simp_all add: element_events_def)

lemma failed_run_decodes:
  "length (filter (\<lambda>e. e = EvDecode) (trace (failed_run d' rs (EvDecode # evs) c m)))
     = Suc (length rs) + length (filter (\<lambda>e. e = EvDecode) evs)"
  by (simp add: failed_run_def decodes_of_elements)

subsection \<open>The handler that reads the whole body\<close>

lemma unmarshal_elements_all:
  "list_all2 (\<lambda>v r. unmarshal_request v = Inr r) vs rs \<Longrightarrow> unmarshal_elements vs = Inr rs"
  by (induction vs rs rule: list_all2_induct) simp_all

lemma json_Unmarshal_array: "json_Unmarshal (tokens_of (JArray vs)) = unmarshal_elements vs"
  using read_tokens_of [of "[]" "JArray vs" "[]"] by (simp add: json_Unmarshal_def)

text \<open>
  The bodies that \<^verbatim>\<open>json.Unmarshal\<close> turns into a non-empty slice of requests are
  exactly the token sequences of the arrays whose elements unmarshal to these requests.
\<close>

lemma unmarshal_elements_list_all2:
  "unmarshal_elements vs = Inr rs \<Longrightarrow> list_all2 (\<lambda>v r. unmarshal_request v = Inr r) vs rs"
  by (induction vs arbitrary: rs) (auto split: sum.splits)

lemma json_Unmarshal_sound:
  assumes "json_Unmarshal body = Inr rs" and "rs \<noteq> []"
  shows "\<exists>vs. body = tokens_of (JArray vs) \<and> list_all2 (\<lambda>v r. unmarshal_request v = Inr r) vs rs"
proof -
  from assms obtain v where b: "begin_value [] body = Some (v, [])"
    by (auto simp: json_Unmarshal_def split: option.splits if_splits)
  then have body: "body = tokens_of v" using begin_value_sound by fastforce
  from assms b obtain vs where "v = JArray vs" "unmarshal_elements vs = Inr rs"
    by (auto simp: json_Unmarshal_def split: json.splits)
  then show ?thesis using body unmarshal_elements_list_all2 by blast
qed

lemma json_Unmarshal_accepts:
  assumes "rs \<noteq> []"
  shows "json_Unmarshal body = Inr rs
     \<longleftrightarrow> (\<exists>vs. body = tokens_of (JArray vs) \<and> list_all2 (\<lambda>v r. unmarshal_request v = Inr r) vs rs)"
  using json_Unmarshal_sound [OF _ assms] json_Unmarshal_array unmarshal_elements_all by metis

lemma range_requests_all:
  assumes "\<forall>r \<in> set rs. Check r = []" and "persist_all up rs (db s) = Some d'"
  shows "range_requests up rs s = (False, s\<lparr>db := d', trace := trace s @ concat (map request_events rs)\<rparr>)"
  using assms
proof (induction rs arbitrary: s)
  case Nil
  then show ?case by auto
next
  case (Cons r rs)
  obtain d1 where d1: "up (db s) (ToAirport r) = Inr d1" and rest: "persist_all up rs d1 = Some d'"
    using Cons.prems by (auto split: sum.splits)
  let ?s1 = "log (EvUpsert (ToAirport r)) ((log (EvCheck r) s)\<lparr>db := d1\<rparr>)"
  have "range_requests up (r # rs) s = range_requests up rs ?s1"
    using Cons.prems d1 by (simp add: Let_def log_def)
  also have "\<dots> = (False, ?s1\<lparr>db := d', trace := trace ?s1 @ concat (map request_events rs)\<rparr>)"
    using Cons.prems rest by (intro Cons.IH) (simp_all add: log_def)
  finally show ?case by (simp add: log_def request_events_def [of r] del: range_requests.simps)
qed

lemma baseline_valid:
  assumes "list_all2 (\<lambda>v r. unmarshal_request v = Inr r) vs rs"
    and "\<forall>r \<in> set rs. Check r = []"
    and "persist_all up rs d = Some d'"
  shows "HandleNonStreamingUpsert io_ReadAll json_Unmarshal up (tokens_of (JArray vs)) (start d) =
     \<lparr>db = d',
      resp = \<lparr>status = Some StatusOK, flushed = False,
               docs = [UpsertAirportResponse ''airports upserted'']\<rparr>,
      trace = [EvReadAll, EvUnmarshal] @ concat (map request_events rs) @ [EvRespond StatusOK]\<rparr>"
proof -
  let ?w = "log EvUnmarshal (log EvReadAll (start d))"
  have "range_requests up rs ?w = (False, ?w\<lparr>db := d', trace := trace ?w @ concat (map request_events rs)\<rparr>)"
    using assms(2,3) by (intro range_requests_all) (simp_all add: log_def start_def)
  then show ?thesis
    using unmarshal_elements_all [OF assms(1)]
    by (simp add: HandleNonStreamingUpsert_def io_ReadAll_def json_Unmarshal_array
          Respond_def log_def start_def new_response_def Write_def WriteHeader_def
          del: tokens_of.simps)
qed

lemma range_requests_append:
  assumes "\<forall>r \<in> set rs. Check r = []" and "persist_all up rs (db s) = Some d'"
  shows "range_requests up (rs @ later) s
       = range_requests up later (s\<lparr>db := d', trace := trace s @ concat (map request_events rs)\<rparr>)"
  using assms
proof (induction rs arbitrary: s)
  case Nil
  then show ?case by auto
next
  case (Cons r rs)
  obtain d1 where d1: "up (db s) (ToAirport r) = Inr d1" and rest: "persist_all up rs d1 = Some d'"
    using Cons.prems by (auto split: sum.splits)
  let ?s1 = "log (EvUpsert (ToAirport r)) ((log (EvCheck r) s)\<lparr>db := d1\<rparr>)"
  have "range_requests up ((r # rs) @ later) s = range_requests up (rs @ later) ?s1"
    using Cons.prems d1 by (simp add: Let_def log_def)
  also have "\<dots> = range_requests up later (?s1\<lparr>db := d', trace := trace ?s1 @ concat (map request_events rs)\<rparr>)"
    using Cons.prems rest by (intro Cons.IH) (simp_all add: log_def)
  finally show ?case by (simp add: log_def request_events_def [of r] del: range_requests.simps)
qed

lemma range_requests_stop:
  assumes "\<forall>x \<in> set rs. Check x = []" and "persist_all up rs (db s) = Some d'"
    and "Check r = []" and "up d' (ToAirport r) = Inl e"
  shows "range_requests up (rs @ r # rs') s =
     (True, RespondWithError StatusInternalServerError (''error upserting airport: '' @ e)
              (log (EvUpsert (ToAirport r)) (log (EvCheck r) (s\<lparr>db := d', trace := trace s @ concat (map request_events rs)\<rparr>))))"
  using assms(3,4) by (simp add: range_requests_append [OF assms(1,2)] Let_def log_def)

subsection \<open>The calls of a run\<close>

lemmas handler_defs = HandleUpsert_def readExpectedToken_def Token.simps NewDecoder_def tokenValueAllowed_def
  tokenValueEnd_def processAirports.simps More_def Flush_def RespondWithError_def RespondAfterFlush_def
  Respond_def log_def start_def new_response_def Write_def WriteHeader_def

lemma precedes_append:
  "precedes a b (xs @ ys) = (precedes a b xs \<or> precedes a b ys \<or> (a \<in> set xs \<and> b \<in> set ys))"
  by (induction xs) auto

lemma precedes_in_set: "precedes a b xs \<Longrightarrow> a \<in> set xs \<and> b \<in> set xs"
  by (induction xs) auto

lemma processAirport_events:
  assumes "processAirport up dec s = (r, dec', s')"
  shows "\<exists>evs. trace s' = trace s @ evs \<and> list_all is_loop_event evs \<and> resp s' = resp s"
  using assms
  by (auto simp: processAirport_def Let_def log_def split: prod.splits sum.splits if_splits)

lemma processAirports_events:
  "processAirports up dec s = (r, dec', s') \<Longrightarrow>
     \<exists>evs. trace s' = trace s @ evs \<and> list_all is_loop_event evs \<and> resp s' = resp s"
proof (induction up dec s arbitrary: r dec' s' rule: processAirports.induct)
  case (1 up dec s)
  show ?case
  proof (cases "More dec")
    case False
    then show ?thesis using "1.prems" by (auto simp: processAirports.simps [of up dec s] log_def)
  next
    case True
    obtain r1 dec1 s1 where step: "processAirport up dec (log EvMore s) = (r1, dec1, s1)"
      by (cases "processAirport up dec (log EvMore s)") auto
    then obtain evs1 where e1: "trace s1 = trace s @ EvMore # evs1" "list_all is_loop_event evs1" "resp s1 = resp s"
      using processAirport_events [OF step] by (auto simp: log_def)
    show ?thesis
    proof (cases r1)
      case (Some herr)
      then have "s' = s1" using "1.prems" True step by (simp add: processAirports.simps [of up dec s])
      then show ?thesis using e1 by auto
    next
      case None
      then have "processAirports up dec1 s1 = (r, dec', s')"
        using "1.prems" True step by (simp add: processAirports.simps [of up dec s])
      then obtain evs2 where "trace s' = trace s1 @ evs2" "list_all is_loop_event evs2" "resp s' = resp s1"
        using "1.IH" [OF True step [symmetric] None refl] by blast
      then show ?thesis using e1 by auto
    qed
  qed
qed

lemma loop_events_no_flush: "list_all is_loop_event evs \<Longrightarrow> EvFlush \<notin> set evs \<and> EvToken t \<notin> set evs"
  by (induction evs) auto

subsection \<open>What a run that flushes has read\<close>

text \<open>
  The converse of the lemmas on well-formed elements. A \<^verbatim>\<open>Decode\<close> inside the array
  that succeeds has read the tokens of a value (after the comma, unless the value is
  the first element); a loop that ends without an error has read elements that all
  decode, pass validation and are stored, and stands where \<^verbatim>\<open>More\<close> is false; the
  read of the closing bracket returns no error there only when the next token is
  \<^verbatim>\<open>]\<close>. So a run of the streaming handler flushes only on a body that is \<^verbatim>\<open>[\<close>,
  such elements and \<^verbatim>\<open>]\<close>, and on such a body this is the sequence of its calls.
\<close>

lemma Decode_position_sound:
  assumes "Decode (array_position vs ts) = (Inr r, dec1)"
  shows "\<exists>v rest1. ts = next_element vs v @ rest1 \<and> unmarshal_request v = Inr r \<and> dec1 = after_element rest1"
proof -
  obtain v where dv: "DecodeValue (array_position vs ts) = (Inr v, dec1)" and u: "unmarshal_request v = Inr r"
    using assms by (auto simp: Decode_def split: prod.splits sum.splits)
  show ?thesis
  proof (cases "vs = []")
    case True
    then obtain rest1 where b: "begin_value [] ts = Some (v, rest1)" and d: "dec1 = after_element rest1"
      using dv
      by (auto simp: DecodeValue_def array_position_def at_start_def after_element_def tokenPrepareForDecode_def
            tokenValueAllowed_def readValue_def tokenValueEnd_def Let_def split: option.splits)
    have "ts = tokens_of v @ rest1" using b by (rule begin_value_sound)
    then show ?thesis using True u d by (auto simp: next_element_def)
  next
    case False
    then obtain ts' where ts: "ts = TComma # ts'"
      using dv
      by (cases ts)
         (auto simp: DecodeValue_def array_position_def after_element_def tokenPrepareForDecode_def
            split: if_splits)
    obtain rest1 where b: "begin_value [] ts' = Some (v, rest1)" and d: "dec1 = after_element rest1"
      using dv False ts
      by (auto simp: DecodeValue_def array_position_def after_element_def tokenPrepareForDecode_def
            tokenValueAllowed_def readValue_def tokenValueEnd_def Let_def split: option.splits)
    have "ts' = tokens_of v @ rest1" using b by (rule begin_value_sound)
    then show ?thesis using False u d ts by (auto simp: next_element_def)
  qed
qed

lemma processAirport_done:
  assumes "processAirport up dec (log EvMore w) = (None, dec1, w1)"
  shows "\<exists>req d1. Decode dec = (Inr req, dec1) \<and> Check req = [] \<and> up (db w) (ToAirport req) = Inr d1
           \<and> w1 = w\<lparr>db := d1, trace := trace w @ element_events req\<rparr>"
  using assms
  by (auto simp: processAirport_def Let_def log_def element_events_def
        split: prod.splits sum.splits if_splits)

lemma loop_sound:
  assumes "processAirports up (array_position vs ts) w = (None, dec', w')"
  shows "\<exists>us qs rest. array_prefix vs @ ts = array_prefix (vs @ us) @ rest
          \<and> dec' = array_position (vs @ us) rest \<and> \<not> More dec'
          \<and> list_all2 (\<lambda>v r. unmarshal_request v = Inr r) us qs
          \<and> (\<forall>q \<in> set qs. Check q = [])
          \<and> persist_all up qs (db w) = Some (db w')
          \<and> resp w' = resp w
          \<and> trace w' = trace w @ concat (map element_events qs) @ [EvMore]"
  using assms
proof (induction "length ts" arbitrary: vs ts w rule: less_induct)
  case less
  let ?dec = "array_position vs ts"
  show ?case
  proof (cases "More ?dec")
    case False
    then have "dec' = ?dec" "w' = log EvMore w"
      using less.prems by (simp_all add: processAirports.simps)
    then have "array_prefix vs @ ts = array_prefix (vs @ []) @ ts \<and> dec' = array_position (vs @ []) ts \<and> \<not> More dec'
          \<and> list_all2 (\<lambda>v r. unmarshal_request v = Inr r) [] []
          \<and> (\<forall>q \<in> set []. Check q = [])
          \<and> persist_all up [] (db w) = Some (db w')
          \<and> resp w' = resp w
          \<and> trace w' = trace w @ concat (map element_events []) @ [EvMore]"
      using False by (simp add: log_def)
    then show ?thesis by blast
  next
    case True
    obtain r1 dec1 w1 where p: "processAirport up ?dec (log EvMore w) = (r1, dec1, w1)"
      using prod_cases3 by blast
    have r1: "r1 = None" and loop: "processAirports up dec1 w1 = (None, dec', w')"
      using less.prems True p by (auto simp: processAirports.simps split: option.splits)
    from processAirport_done [OF p [unfolded r1]] obtain req d1 where
      dc: "Decode ?dec = (Inr req, dec1)" and ck: "Check req = []" and up: "up (db w) (ToAirport req) = Inr d1"
      and w1: "w1 = w\<lparr>db := d1, trace := trace w @ element_events req\<rparr>" by blast
    from Decode_position_sound [OF dc] obtain v rest1 where
      ts: "ts = next_element vs v @ rest1" and u: "unmarshal_request v = Inr req" and dec1: "dec1 = after_element rest1"
      by blast
    have pos: "dec1 = array_position (vs @ [v]) rest1" using dec1 by (simp add: array_position_def)
    have len: "length rest1 < length ts" using ts tokens_of_start [of v] by (auto simp: next_element_def)
    from less.hyps [OF len loop [unfolded pos]] obtain us qs rest where
      a: "array_prefix (vs @ [v]) @ rest1 = array_prefix ((vs @ [v]) @ us) @ rest"
      and b: "dec' = array_position ((vs @ [v]) @ us) rest" "\<not> More dec'"
      and c: "list_all2 (\<lambda>v r. unmarshal_request v = Inr r) us qs" "\<forall>q \<in> set qs. Check q = []"
      and e: "persist_all up qs (db w1) = Some (db w')" "resp w' = resp w1"
             "trace w' = trace w1 @ concat (map element_events qs) @ [EvMore]"
      by blast
    have "array_prefix vs @ ts = array_prefix (vs @ (v # us)) @ rest \<and> dec' = array_position (vs @ (v # us)) rest \<and> \<not> More dec'
          \<and> list_all2 (\<lambda>v r. unmarshal_request v = Inr r) (v # us) (req # qs)
          \<and> (\<forall>q \<in> set (req # qs). Check q = [])
          \<and> persist_all up (req # qs) (db w) = Some (db w')
          \<and> resp w' = resp w
          \<and> trace w' = trace w @ concat (map element_events (req # qs)) @ [EvMore]"
      using a b c e u ck up w1 ts by (simp add: array_prefix_snoc)
    then show ?thesis by blast
  qed
qed

lemma readExpectedToken_open_sound:
  assumes "readExpectedToken (NewDecoder body) LBracket w = (None, dec1, w1)"
  shows "\<exists>ts. body = TLBracket # ts \<and> dec1 = at_start ts \<and> w1 = log (EvToken LBracket) w"
proof (cases "\<forall>rest. body \<noteq> TLBracket # rest")
  case True
  then show ?thesis using readExpectedToken_not_open [OF True, of w] assms by auto
next
  case False
  then obtain ts where "body = TLBracket # ts" by blast
  then show ?thesis using assms by (simp add: readExpectedToken_open)
qed

lemma readExpectedToken_close_sound:
  assumes "\<not> More (array_position vs rest)"
    and "readExpectedToken (array_position vs rest) RBracket w = (None, dec3, w3)"
  shows "\<exists>rest'. rest = TRBracket # rest'"
proof (cases rest)
  case Nil
  then show ?thesis using assms(2)
    by (simp add: readExpectedToken_def Token.simps array_position_def at_start_def after_element_def split: if_splits)
next
  case (Cons c cs)
  then have "c = TRBracket \<or> c = TRBrace"
    using assms(1) by (auto simp: More_def array_position_def at_start_def after_element_def split: if_splits)
  moreover have "c \<noteq> TRBrace"
    using assms(2) Cons
    by (auto simp: readExpectedToken_def Token.simps array_position_def at_start_def after_element_def split: if_splits)
  ultimately show ?thesis using Cons by simp
qed

lemma Token_close: "fst (Token (array_position vs (TRBracket # rest))) = Inr (Delim RBracket)"
  by (simp add: Token.simps array_position_def at_start_def after_element_def)

lemma streaming_flushes:
  assumes "list_all2 (\<lambda>v r. unmarshal_request v = Inr r) vs rs"
    and "\<forall>r \<in> set rs. Check r = []"
    and "persist_all up rs d = Some d'"
  shows "trace (HandleUpsert up ctr (TLBracket # array_prefix vs @ TRBracket # rest) (start d))
       = EvToken LBracket # concat (map element_events rs)
           @ [EvMore, EvToken RBracket, EvFlush,
              (case FlushErr ctr of None \<Rightarrow> EvRespondAfterFlush
               | Some e \<Rightarrow> EvRespondWithError StatusInternalServerError e)]"
proof -
  let ?w1 = "log (EvToken LBracket) (start d)"
  let ?w2 = "?w1\<lparr>db := d', trace := trace ?w1 @ concat (map element_events rs)\<rparr>"
  have loop: "processAirports up (at_start (array_prefix vs @ TRBracket # rest)) ?w1
      = (None, array_position vs (TRBracket # rest), log EvMore ?w2)"
    using loop_prefix [OF assms(1,2), of up ?w1 d' "TRBracket # rest"] assms(3)
    by (simp add: processAirports_at_close log_def start_def)
  obtain dec' where close: "readExpectedToken (array_position vs (TRBracket # rest)) RBracket (log EvMore ?w2)
      = (None, dec', log (EvToken RBracket) (log EvMore ?w2))"
    using readExpectedToken_close by blast
  show ?thesis
    using loop close
    by (simp add: HandleUpsert_def readExpectedToken_open Flush_def
          RespondWithError_def RespondAfterFlush_def log_def start_def new_response_def Write_def WriteHeader_def
          split: option.splits)
qed

lemma flush_sound:
  assumes "EvFlush \<in> set (trace (HandleUpsert up ctr body (start d)))"
  shows "\<exists>vs rs rest. body = TLBracket # array_prefix vs @ TRBracket # rest
          \<and> list_all2 (\<lambda>v r. unmarshal_request v = Inr r) vs rs
          \<and> (\<forall>r \<in> set rs. Check r = [])
          \<and> persist_all up rs d \<noteq> None"
proof -
  obtain r1 dec1 w1 where t1: "readExpectedToken (NewDecoder body) LBracket (start d) = (r1, dec1, w1)"
    using prod_cases3 by blast
  have w1: "w1 = log (EvToken LBracket) (start d)"
    using readExpectedToken_world [OF t1] .
  obtain r2 dec2 w2 where t2: "processAirports up dec1 w1 = (r2, dec2, w2)"
    using prod_cases3 by blast
  obtain evs where w2: "trace w2 = EvToken LBracket # evs" and evs: "list_all is_loop_event evs"
    using processAirports_events [OF t2] w1 by (auto simp: log_def start_def)
  note nf = loop_events_no_flush [OF evs]
  obtain r3 dec3 w3 where t3: "readExpectedToken dec2 RBracket w2 = (r3, dec3, w3)"
    using prod_cases3 by blast
  have w3: "trace w3 = EvToken LBracket # evs @ [EvToken RBracket]"
    using readExpectedToken_world [OF t3] w2 by (simp add: log_def)
  have r1: "r1 = None"
    using assms t1 w1 by (cases r1) (auto simp: HandleUpsert_def RespondWithError_def log_def start_def)
  have r2: "r2 = None"
    using assms t1 t2 r1 w2 nf by (cases r2) (auto simp: HandleUpsert_def RespondWithError_def log_def)
  have r3: "r3 = None"
    using assms t1 t2 t3 r1 r2 w3 nf by (cases r3) (auto simp: HandleUpsert_def RespondWithError_def log_def)
  from readExpectedToken_open_sound [OF t1 [unfolded r1]] obtain ts where
    body: "body = TLBracket # ts" and dec1: "dec1 = at_start ts" by blast
  have pos: "dec1 = array_position [] ts" using dec1 by (simp add: array_position_def)
  from loop_sound [OF t2 [unfolded r2 pos]] obtain us qs rest where
    a: "array_prefix [] @ ts = array_prefix ([] @ us) @ rest"
    and b: "dec2 = array_position ([] @ us) rest" "\<not> More dec2"
    and c: "list_all2 (\<lambda>v r. unmarshal_request v = Inr r) us qs" "\<forall>q \<in> set qs. Check q = []"
    and e: "persist_all up qs (db w1) = Some (db w2)"
    by blast
  from readExpectedToken_close_sound [OF b(2) [unfolded b(1)] t3 [unfolded r3 b(1)]] obtain rest' where
    rest: "rest = TRBracket # rest'" by blast
  have "body = TLBracket # array_prefix us @ TRBracket # rest'"
    using body a rest by (simp add: array_prefix_def)
  moreover have "persist_all up qs d \<noteq> None" using e w1 by (simp add: log_def start_def)
  ultimately show ?thesis using c by blast
qed

subsection \<open>Upserts come after their checks\<close>

lemma checked_upserts_Nil: "checked_upserts []"
  by (simp add: checked_upserts_def)

lemma checked_upserts_single: "\<forall>a. e \<noteq> EvUpsert a \<Longrightarrow> checked_upserts [e]"
  by (auto simp: checked_upserts_def Cons_eq_append_conv)

lemma checked_upserts_snoc:
  assumes "checked_upserts tr" and "\<forall>a. e \<noteq> EvUpsert a"
  shows "checked_upserts (tr @ [e])"
  unfolding checked_upserts_def
proof (intro allI impI)
  fix pre a post
  assume eq: "tr @ [e] = pre @ EvUpsert a # post"
  show "\<exists>pre' req. pre = pre' @ [EvCheck req] \<and> Check req = [] \<and> a = ToAirport req"
  proof (cases post rule: rev_cases)
    case Nil
    then show ?thesis using eq assms(2) by auto
  next
    case (snoc post' x)
    then have "tr = pre @ EvUpsert a # post'" using eq by simp
    then show ?thesis using assms(1) by (auto simp: checked_upserts_def)
  qed
qed

lemma checked_upserts_upsert:
  assumes "checked_upserts tr" and "Check req = []"
  shows "checked_upserts (tr @ [EvCheck req, EvUpsert (ToAirport req)])"
  unfolding checked_upserts_def
proof (intro allI impI)
  fix pre a post
  assume eq: "tr @ [EvCheck req, EvUpsert (ToAirport req)] = pre @ EvUpsert a # post"
  show "\<exists>pre' r. pre = pre' @ [EvCheck r] \<and> Check r = [] \<and> a = ToAirport r"
  proof (cases post rule: rev_cases)
    case Nil
    then have "pre = tr @ [EvCheck req]" "a = ToAirport req" using eq by auto
    then show ?thesis using assms(2) by blast
  next
    case (snoc post' x)
    then have eq': "tr @ [EvCheck req] = pre @ EvUpsert a # post'" using eq by simp
    show ?thesis
    proof (cases post' rule: rev_cases)
      case Nil
      then show ?thesis using eq' by simp
    next
      case (snoc post'' y)
      then have "tr = pre @ EvUpsert a # post''" using eq' by simp
      then show ?thesis using assms(1) by (auto simp: checked_upserts_def)
    qed
  qed
qed

lemma processAirport_checked:
  assumes "processAirport up dec s = (r, dec', s')" and "checked_upserts (trace s)"
  shows "checked_upserts (trace s')"
proof -
  have d: "checked_upserts (trace s @ [EvDecode])"
    by (rule checked_upserts_snoc [OF assms(2)]) simp
  have c: "checked_upserts ((trace s @ [EvDecode]) @ [EvCheck req])" for req
    by (rule checked_upserts_snoc [OF d]) simp
  have u: "Check req = [] \<Longrightarrow> checked_upserts ((trace s @ [EvDecode]) @ [EvCheck req, EvUpsert (ToAirport req)])" for req
    by (rule checked_upserts_upsert [OF d])
  show ?thesis
    using assms(1) d c u
    by (auto simp: processAirport_def Let_def log_def split: prod.splits sum.splits if_splits)
qed

lemma processAirports_checked:
  "processAirports up dec s = (r, dec', s') \<Longrightarrow> checked_upserts (trace s) \<Longrightarrow> checked_upserts (trace s')"
proof (induction up dec s arbitrary: r dec' s' rule: processAirports.induct)
  case (1 up dec s)
  have m: "checked_upserts (trace (log EvMore s))"
    using "1.prems"(2) by (simp add: log_def checked_upserts_snoc)
  show ?case
  proof (cases "More dec")
    case False
    then show ?thesis using "1.prems"(1) m by (auto simp: processAirports.simps [of up dec s])
  next
    case True
    obtain r1 dec1 s1 where step: "processAirport up dec (log EvMore s) = (r1, dec1, s1)"
      using prod_cases3 by blast
    have s1: "checked_upserts (trace s1)"
      using processAirport_checked [OF step m] .
    show ?thesis
    proof (cases r1)
      case (Some herr)
      then have "s' = s1" using "1.prems"(1) True step by (simp add: processAirports.simps [of up dec s])
      then show ?thesis using s1 by simp
    next
      case None
      then have "processAirports up dec1 s1 = (r, dec', s')"
        using "1.prems"(1) True step by (simp add: processAirports.simps [of up dec s])
      then show ?thesis
        using "1.IH" [OF True step [symmetric] None refl _ s1] by blast
    qed
  qed
qed

lemma checked_upserts_RespondWithError:
  "checked_upserts (trace s) \<Longrightarrow> checked_upserts (trace (RespondWithError c m s))"
  by (simp add: RespondWithError_def log_def checked_upserts_snoc)

lemma range_requests_checked:
  "range_requests up rs s = (b, s') \<Longrightarrow> checked_upserts (trace s) \<Longrightarrow> checked_upserts (trace s')"
proof (induction rs arbitrary: s)
  case Nil
  then show ?case by simp
next
  case (Cons r rs)
  have c: "checked_upserts (trace s @ [EvCheck r])"
    by (rule checked_upserts_snoc [OF Cons.prems(2)]) simp
  show ?case
  proof (cases "Check r = []")
    case False
    then show ?thesis
      using Cons.prems(1) c by (auto simp: Let_def log_def intro!: checked_upserts_RespondWithError)
  next
    case True
    have u: "checked_upserts (trace s @ [EvCheck r, EvUpsert (ToAirport r)])"
      using Cons.prems(2) True by (rule checked_upserts_upsert)
    show ?thesis
    proof (cases "up (db s) (ToAirport r)")
      case (Inl e)
      then show ?thesis
        using Cons.prems(1) True u by (auto simp: Let_def log_def intro!: checked_upserts_RespondWithError)
    next
      case (Inr d1)
      then have run: "range_requests up rs (log (EvUpsert (ToAirport r)) ((log (EvCheck r) s)\<lparr>db := d1\<rparr>)) = (b, s')"
        using Cons.prems(1) True by (simp add: Let_def log_def)
      have "checked_upserts (trace (log (EvUpsert (ToAirport r)) ((log (EvCheck r) s)\<lparr>db := d1\<rparr>)))"
        using u by (simp add: log_def)
      then show ?thesis
        by (rule Cons.IH [OF run])
    qed
  qed
qed

lemma HandleUpsert_checked: "checked_upserts (trace (HandleUpsert up ctr body (start d)))"
proof -
  obtain r1 dec1 w1 where t1: "readExpectedToken (NewDecoder body) LBracket (start d) = (r1, dec1, w1)"
    using prod_cases3 by blast
  have w1: "checked_upserts (trace w1)"
    using readExpectedToken_world [OF t1] by (simp add: log_def start_def checked_upserts_single)
  obtain r2 dec2 w2 where t2: "processAirports up dec1 w1 = (r2, dec2, w2)"
    using prod_cases3 by blast
  have w2: "checked_upserts (trace w2)"
    using processAirports_checked [OF t2 w1] .
  obtain r3 dec3 w3 where t3: "readExpectedToken dec2 RBracket w2 = (r3, dec3, w3)"
    using prod_cases3 by blast
  have w3: "checked_upserts (trace w3)"
    using readExpectedToken_world [OF t3] w2 by (simp add: log_def checked_upserts_snoc)
  obtain r4 w4 where t4: "Flush ctr w3 = (r4, w4)"
    by (cases "Flush ctr w3") auto
  have w4: "checked_upserts (trace w4)"
    using t4 w3 by (auto simp: Flush_def log_def checked_upserts_snoc split: option.splits)
  have w5: "checked_upserts (trace (RespondAfterFlush x w4))" for x
    using w4 by (simp add: RespondAfterFlush_def log_def checked_upserts_snoc)
  show ?thesis
    using t1 t2 t3 t4 w1 w2 w3 w4 w5
    by (cases r1; cases r2; cases r3; cases r4)
       (simp_all add: HandleUpsert_def checked_upserts_RespondWithError)
qed

lemma HandleNonStreamingUpsert_checked:
  "checked_upserts (trace (HandleNonStreamingUpsert ioReadAll jsonUnmarshal up body (start d)))"
proof -
  let ?w0 = "log EvReadAll (start d)"
  let ?w1 = "log EvUnmarshal ?w0"
  have w0: "checked_upserts (trace ?w0)"
    by (simp add: log_def start_def checked_upserts_single)
  have w1: "checked_upserts (trace ?w1)"
    using checked_upserts_snoc [OF w0, of EvUnmarshal] by (simp add: log_def)
  show ?thesis
  proof (cases "ioReadAll body")
    case (Inl e)
    then show ?thesis
      using w0 by (simp add: HandleNonStreamingUpsert_def checked_upserts_RespondWithError)
  next
    case (Inr data)
    show ?thesis
    proof (cases "jsonUnmarshal data")
      case (Inl e)
      then show ?thesis
        using Inr w1 by (simp add: HandleNonStreamingUpsert_def checked_upserts_RespondWithError)
    next
      case rs: (Inr rs)
      obtain b w' where run: "range_requests up rs ?w1 = (b, w')"
        by (cases "range_requests up rs ?w1") auto
      have w': "checked_upserts (trace w')"
        by (rule range_requests_checked [OF run w1])
      have "checked_upserts (trace (Respond c x w'))" for c x
        using checked_upserts_snoc [OF w', of "EvRespond c"] by (simp add: Respond_def log_def)
      then show ?thesis
        using Inr rs run w' by (cases b) (simp_all add: HandleNonStreamingUpsert_def)
    qed
  qed
qed

subsection \<open>The table\<close>

lemma filter_code_distinct:
  "distinct (map iata_code rows) \<Longrightarrow> row \<in> set rows \<Longrightarrow> filter (\<lambda>x. iata_code x = iata_code row) rows = [row]"
proof (induction rows)
  case Nil
  then show ?case by simp
next
  case (Cons x rows)
  show ?case
  proof (cases "x = row")
    case True
    then have "filter (\<lambda>y. iata_code y = iata_code row) rows = []"
      using Cons.prems(1) by (auto simp: filter_empty_conv image_iff)
    then show ?thesis using True by simp
  next
    case False
    then have "row \<in> set rows" using Cons.prems(2) by simp
    moreover have "iata_code x \<noteq> iata_code row"
      using Cons.prems(1) calculation by auto
    ultimately show ?thesis using Cons by simp
  qed
qed

lemma row_replaced:
  "iata_code (row :: Airport) = iata_code b \<Longrightarrow> row\<lparr>name := name b, city := city b, country := country b\<rparr> = b"
  by simp

lemma upsertQuery_same:
  assumes "distinct (map iata_code rows)"
  shows "filter (\<lambda>row. iata_code row = iata_code b) (upsertQuery (name b) (city b) (country b) (iata_code b) rows) = [b]"
proof (cases "\<exists>row \<in> set rows. iata_code row = iata_code b")
  case False
  then have "filter (\<lambda>row. iata_code row = iata_code b) rows = []"
    by (auto simp: filter_empty_conv)
  then show ?thesis using False by (simp add: upsertQuery_def)
next
  case True
  then obtain row where row: "row \<in> set rows" "iata_code row = iata_code b" by blast
  have "filter (\<lambda>x. iata_code x = iata_code b)
          (map (\<lambda>x. if iata_code x = iata_code b then x\<lparr>name := name b, city := city b, country := country b\<rparr> else x) rows)
      = map (\<lambda>x. b) (filter (\<lambda>x. iata_code x = iata_code b) rows)"
    by (induction rows) auto
  also have "\<dots> = [b]"
    using filter_code_distinct [OF assms row(1)] row(2) by simp
  finally show ?thesis using True by (simp add: upsertQuery_def)
qed

lemma upsertQuery_others:
  "filter (\<lambda>row. iata_code row \<noteq> c) (upsertQuery n ci co c rows) = filter (\<lambda>row. iata_code row \<noteq> c) rows"
proof -
  have "filter (\<lambda>x. iata_code x \<noteq> c) (map (\<lambda>x. if iata_code x = c then x\<lparr>name := n, city := ci, country := co\<rparr> else x) rows)
      = filter (\<lambda>x. iata_code x \<noteq> c) rows"
    by (induction rows) auto
  then show ?thesis by (simp add: upsertQuery_def)
qed

lemma upsertQuery_codes:
  "map iata_code (upsertQuery n ci co c rows)
     = (if c \<in> set (map iata_code rows) then map iata_code rows else map iata_code rows @ [c])"
proof -
  have "map iata_code (map (\<lambda>x. if iata_code x = c then x\<lparr>name := n, city := ci, country := co\<rparr> else x) rows)
      = map iata_code rows"
    by (induction rows) auto
  then show ?thesis by (auto simp: upsertQuery_def)
qed

lemma upsertQuery_distinct:
  "distinct (map iata_code rows) \<Longrightarrow> distinct (map iata_code (upsertQuery n ci co c rows))"
  by (simp add: upsertQuery_codes)

lemma Upsert_ok:
  "conn_err d = None \<Longrightarrow>
     Upsert d a = Inr (d\<lparr>airports := upsertQuery (name a) (city a) (country a) (iata_code a) (airports d)\<rparr>)"
  by (simp add: Upsert_def ExecContext_def)

subsection \<open>Keys that name no field, and blank fields\<close>

lemma lookup_geoloc: "lookup_field ''geoloc'' = None"
  by (simp add: lookup_field_def json_tags_def)

lemma unmarshal_members_geoloc:
  "unmarshal_members (ms @ (''geoloc'', g) # ns) r = unmarshal_members (ms @ ns) r"
  by (induction ms arbitrary: r) (auto simp: lookup_geoloc split: option.splits json.splits)

lemma blank_iff: "(\<not> present s) = list_all is_space s"
  by (auto simp: present_def list_all_iff)

subsection \<open>The examples\<close>

lemmas unmarshal_defs = unmarshal_request_def lookup_field_def json_tags_def zero_request_def

lemmas check_defs = Check_def required_def present_def is_space_def

lemmas upsert_defs = Upsert_def ExecContext_def upsertQuery_def ToAirport_def empty_db_def failing_on_def

lemma unmarshal_congonhas: "unmarshal_request congonhas = Inr congonhas_request"
  by (simp add: congonhas_def congonhas_request_def unmarshal_defs)

lemma unmarshal_bad_code: "unmarshal_request bad_code = Inr bad_code_request"
  by (simp add: bad_code_def bad_code_request_def unmarshal_defs)

lemma unmarshal_no_code:
  "unmarshal_request no_code = Inr \<lparr>Name = ''A'', City = ''B'', Country = ''C'', IataCode = []\<rparr>"
  by (simp add: no_code_def unmarshal_defs)

lemma Check_congonhas: "Check congonhas_request = []"
  by (simp add: congonhas_request_def check_defs)

lemma Check_bad_code: "Check bad_code_request = []"
  by (simp add: bad_code_request_def check_defs)

lemma Check_no_code:
  "Check \<lparr>Name = ''A'', City = ''B'', Country = ''C'', IataCode = []\<rparr>
     = [\<lparr>field = ''iata_code'', reason = ''iata_code is a required field''\<rparr>]"
  by (simp add: check_defs)

lemma persist_congonhas: "persist_all Upsert [congonhas_request] empty_db = Some one_row"
  by (simp add: upsert_defs one_row_def congonhas_request_def)

lemma persist_congonhas_failing: "persist_all (failing_on ''BAD'') [congonhas_request] empty_db = Some one_row"
  by (simp add: upsert_defs one_row_def congonhas_request_def)

lemma failing_on_bad: "failing_on ''BAD'' one_row (ToAirport bad_code_request) = Inl ''database error''"
  by (simp add: upsert_defs bad_code_request_def)

lemma message_no_code:
  \<open>violations_Error [\<lparr>field = ''iata_code'', reason = ''iata_code is a required field''\<rparr>]
     = ''[{"field":"iata_code","error":"iata_code is a required field"}]''\<close>
  by (simp add: violations_Error_def violation_json_def)

subsection \<open>The tests of the repository\<close>

text \<open>
  The model run on the table of \<^verbatim>\<open>TestHandleUpsert\<close>, on that of
  \<^verbatim>\<open>TestHandleNonStreamingUpsert\<close> and on the error case of \<^verbatim>\<open>TestUpsert\<close>: each
  lemma is one test case, its input as tokens, its expected status and body as the
  response. The city is written without its tilde.
\<close>

lemmas decode_defs = Decode_def DecodeValue_def tokenPrepareForDecode_def readValue_def
  processAirport_def Let_def

lemma test_happy_path:
  "resp (HandleUpsert storing_nothing \<lparr>FlushErr = None\<rparr> (tokens_of (JArray [congonhas])) (start ()))
     = \<lparr>status = Some StatusOK, flushed = True, docs = [UpsertAirportResponse ''airports upserted'']\<rparr>"
  by (simp add: handler_defs decode_defs congonhas_def unmarshal_defs check_defs storing_nothing_def)

lemma test_missing_opening:
  "resp (HandleUpsert storing_nothing \<lparr>FlushErr = None\<rparr> (tokens_of congonhas @ [TRBracket]) (start ()))
     = \<lparr>status = Some StatusBadRequest, flushed = False,
        docs = [ErrorResponse ''invalid JSON: expected '[' at start'']\<rparr>"
  by (simp add: handler_defs decode_defs congonhas_def)

lemma test_validation_error:
  \<open>resp (HandleUpsert storing_nothing \<lparr>FlushErr = None\<rparr>
           (tokens_of (JArray [JObject [(''name'', JString ''Aeroporto de Congonhas''),
              (''city'', JString ''Sao Paulo''), (''country'', JString ''Brasil'')]])) (start ()))
     = \<lparr>status = Some StatusBadRequest, flushed = False,
        docs = [ErrorResponse ''[{"field":"iata_code","error":"iata_code is a required field"}]'']\<rparr>\<close>
  by (simp add: handler_defs decode_defs unmarshal_defs check_defs violations_Error_def violation_json_def)

lemma test_invalid_json_structure:
  "resp (HandleUpsert storing_nothing \<lparr>FlushErr = None\<rparr>
           [TLBracket, TString ''name'', TColon, TString ''Aeroporto de Congonhas'', TRBracket] (start ()))
     = \<lparr>status = Some StatusBadRequest, flushed = False,
        docs = [ErrorResponse ''invalid JSON airport structure'']\<rparr>"
  by (simp add: handler_defs decode_defs unmarshal_defs)

lemma test_database_error:
  "resp (HandleUpsert database_error \<lparr>FlushErr = None\<rparr> (tokens_of (JArray [congonhas])) (start ()))
     = \<lparr>status = Some StatusInternalServerError, flushed = False,
        docs = [ErrorResponse ''error upserting airport: database error'']\<rparr>"
  by (simp add: handler_defs decode_defs congonhas_def unmarshal_defs check_defs database_error_def)

lemma test_missing_closing:
  "resp (HandleUpsert storing_nothing \<lparr>FlushErr = None\<rparr> (TLBracket # tokens_of congonhas) (start ()))
     = \<lparr>status = Some StatusBadRequest, flushed = False,
        docs = [ErrorResponse ''invalid JSON: expected ']' at end'']\<rparr>"
  by (simp add: handler_defs decode_defs congonhas_def unmarshal_defs check_defs storing_nothing_def)

lemma test_flush_error:
  "resp (HandleUpsert storing_nothing \<lparr>FlushErr = Some ''flush error''\<rparr> (tokens_of (JArray [congonhas])) (start ()))
     = \<lparr>status = Some StatusInternalServerError, flushed = False, docs = [ErrorResponse ''flush error'']\<rparr>"
  by (simp add: handler_defs decode_defs congonhas_def unmarshal_defs check_defs storing_nothing_def)

lemmas baseline_defs = HandleNonStreamingUpsert_def io_ReadAll_def json_Unmarshal_def Let_def
  RespondWithError_def Respond_def log_def start_def new_response_def Write_def WriteHeader_def

lemma test_nonstreaming_happy_path:
  "resp (HandleNonStreamingUpsert io_ReadAll json_Unmarshal storing_nothing (tokens_of (JArray [congonhas])) (start ()))
     = \<lparr>status = Some StatusOK, flushed = False, docs = [UpsertAirportResponse ''airports upserted'']\<rparr>"
  by (simp add: baseline_defs congonhas_def unmarshal_defs check_defs storing_nothing_def)

lemma test_nonstreaming_read_error:
  "resp (HandleNonStreamingUpsert (\<lambda>r. Inl ''unexpected EOF'') json_Unmarshal storing_nothing
           (tokens_of (JArray [congonhas])) (start ()))
     = \<lparr>status = Some StatusBadRequest, flushed = False, docs = [ErrorResponse ''failed to read request body'']\<rparr>"
  by (simp add: baseline_defs)

lemma test_nonstreaming_unmarshal_error:
  "resp (HandleNonStreamingUpsert io_ReadAll (\<lambda>data. Inl ''unexpected EOF'') storing_nothing
           (tokens_of (JArray [congonhas])) (start ()))
     = \<lparr>status = Some StatusBadRequest, flushed = False, docs = [ErrorResponse ''invalid JSON format'']\<rparr>"
  by (simp add: baseline_defs)

lemma test_nonstreaming_validation_error:
  \<open>resp (HandleNonStreamingUpsert io_ReadAll json_Unmarshal storing_nothing
           (tokens_of (JArray [JObject [(''name'', JString ''Aeroporto de Congonhas''),
              (''city'', JString ''Sao Paulo''), (''country'', JString ''Brasil'')]])) (start ()))
     = \<lparr>status = Some StatusBadRequest, flushed = False,
        docs = [ErrorResponse ''[{"field":"iata_code","error":"iata_code is a required field"}]'']\<rparr>\<close>
  by (simp add: baseline_defs unmarshal_defs check_defs violations_Error_def violation_json_def)

lemma test_nonstreaming_database_error:
  "resp (HandleNonStreamingUpsert io_ReadAll json_Unmarshal database_error (tokens_of (JArray [congonhas])) (start ()))
     = \<lparr>status = Some StatusInternalServerError, flushed = False,
        docs = [ErrorResponse ''error upserting airport: database error'']\<rparr>"
  by (simp add: baseline_defs congonhas_def unmarshal_defs check_defs database_error_def)

lemma test_Upsert_error:
  "Upsert \<lparr>airports = [], conn_err = Some ''sql: connection is already closed''\<rparr>
      \<lparr>name = ''John F. Kennedy International Airport'', city = ''New York'', country = ''United States'',
        iata_code = ''JFK''\<rparr>
     = Inl ''upserting airport: sql: connection is already closed''"
  by (simp add: Upsert_def ExecContext_def)

section \<open>The claims\<close>

subsection \<open>C1: the first failing element stops the stream\<close>

text \<open>
  Claim C1. Let the body be \<^verbatim>\<open>[\<close>, then the elements \<open>vs\<close> (elements 1 to k-1: each a
  well-formed value that decodes to a request, passes validation and is stored, the
  upserts leaving the store \<open>d'\<close>), then \<open>rest\<close>, where the decoder finds a further
  element (\<^verbatim>\<open>More\<close>). Element k can fail in three ways, and in each the streaming handler
  has processed elements 1 to k-1 in the order of the array, leaves the store \<open>d'\<close> with
  nothing undone, flushes nothing, and makes no call after those for element k but the
  response:

  \<^item> \<^verbatim>\<open>Decode\<close> at element k returns an error: the response is status 400 with
    \<^verbatim>\<open>invalid JSON airport structure\<close>, and the last call before it is that \<^verbatim>\<open>Decode\<close>;
  \<^item> element k decodes to \<open>req\<close> and \<open>req\<close> has violations: the response is status 400
    with the violations of \<open>req\<close>, and the last call before it is the check of \<open>req\<close>;
  \<^item> element k decodes to \<open>req\<close>, \<open>req\<close> is valid and its upsert on \<open>d'\<close> returns the
    error \<open>e\<close>: the response is status 500 with \<^verbatim>\<open>error upserting airport: \<close> and \<open>e\<close>,
    and the last call before it is that upsert.

  The run has decoded k times (\<open>failed_run_decodes\<close>); what follows element k in
  \<open>rest\<close> is never decoded, validated or stored.
\<close>

theorem first_failure_stops_stream:
  assumes "list_all2 (\<lambda>v r. unmarshal_request v = Inr r) vs rs"
    and "\<forall>r \<in> set rs. Check r = []"
    and "persist_all up rs d = Some d'"
    and "More (array_position vs rest)"
  shows "(\<forall>e dec'. Decode (array_position vs rest) = (Inl e, dec') \<longrightarrow>
            HandleUpsert up ctr (TLBracket # array_prefix vs @ rest) (start d)
              = failed_run d' rs [EvDecode] StatusBadRequest ''invalid JSON airport structure'')
       \<and> (\<forall>req dec'. Decode (array_position vs rest) = (Inr req, dec') \<and> Check req \<noteq> [] \<longrightarrow>
            HandleUpsert up ctr (TLBracket # array_prefix vs @ rest) (start d)
              = failed_run d' rs [EvDecode, EvCheck req] StatusBadRequest (violations_Error (Check req)))
       \<and> (\<forall>req dec' e. Decode (array_position vs rest) = (Inr req, dec') \<and> Check req = []
              \<and> up d' (ToAirport req) = Inl e \<longrightarrow>
            HandleUpsert up ctr (TLBracket # array_prefix vs @ rest) (start d)
              = failed_run d' rs [EvDecode, EvCheck req, EvUpsert (ToAirport req)]
                  StatusInternalServerError (''error upserting airport: '' @ e))"
proof (intro conjI allI impI)
  fix e dec'
  assume "Decode (array_position vs rest) = (Inl e, dec')"
  then show "HandleUpsert up ctr (TLBracket # array_prefix vs @ rest) (start d)
      = failed_run d' rs [EvDecode] StatusBadRequest ''invalid JSON airport structure''"
    by (intro streaming_stops_run [OF assms, of _ _ dec']) (simp add: processAirport_def log_def)
next
  fix req dec'
  assume "Decode (array_position vs rest) = (Inr req, dec') \<and> Check req \<noteq> []"
  then show "HandleUpsert up ctr (TLBracket # array_prefix vs @ rest) (start d)
      = failed_run d' rs [EvDecode, EvCheck req] StatusBadRequest (violations_Error (Check req))"
    by (intro streaming_stops_run [OF assms, of _ _ dec']) (simp add: processAirport_def log_def Let_def)
next
  fix req dec' e
  assume "Decode (array_position vs rest) = (Inr req, dec') \<and> Check req = [] \<and> up d' (ToAirport req) = Inl e"
  then show "HandleUpsert up ctr (TLBracket # array_prefix vs @ rest) (start d)
      = failed_run d' rs [EvDecode, EvCheck req, EvUpsert (ToAirport req)]
          StatusInternalServerError (''error upserting airport: '' @ e)"
    by (intro streaming_stops_run [OF assms, of _ _ dec']) (simp add: processAirport_def log_def Let_def)
qed

text \<open>
  The airport followed by a second element and the airport again, for each way of
  failing: the second element is the number 1 (it does not decode into the struct), the
  element without a code (it has a violation), and the element with the code \<^verbatim>\<open>BAD\<close>
  on a store that fails on that code. Each time the first airport is stored, the answer
  is that of the second element, and the third element is not touched.
\<close>

theorem first_failure_stops_stream_witness:
  \<open>list_all2 (\<lambda>v r. unmarshal_request v = Inr r) [congonhas] [congonhas_request]
   \<and> Check congonhas_request = []
   \<and> persist_all Upsert [congonhas_request] empty_db = Some one_row
   \<and> persist_all (failing_on ''BAD'') [congonhas_request] empty_db = Some one_row
   \<and> More (array_position [congonhas] (TComma # TNumber ''1'' # TComma # tokens_of congonhas @ [TRBracket]))
   \<and> Decode (array_position [congonhas] (TComma # TNumber ''1'' # TComma # tokens_of congonhas @ [TRBracket]))
       = (Inl UnmarshalTypeError, after_element (TComma # tokens_of congonhas @ [TRBracket]))
   \<and> HandleUpsert Upsert \<lparr>FlushErr = None\<rparr>
        (TLBracket # array_prefix [congonhas] @ TComma # TNumber ''1'' # TComma # tokens_of congonhas @ [TRBracket])
        (start empty_db) =
        \<lparr>db = one_row,
         resp = \<lparr>status = Some StatusBadRequest, flushed = False,
                  docs = [ErrorResponse ''invalid JSON airport structure'']\<rparr>,
         trace = [EvToken LBracket,
                  EvMore, EvDecode, EvCheck congonhas_request, EvUpsert (ToAirport congonhas_request),
                  EvMore, EvDecode,
                  EvRespondWithError StatusBadRequest ''invalid JSON airport structure'']\<rparr>
   \<and> More (array_position [congonhas] (TComma # tokens_of no_code @ TComma # tokens_of congonhas @ [TRBracket]))
   \<and> Decode (array_position [congonhas] (TComma # tokens_of no_code @ TComma # tokens_of congonhas @ [TRBracket]))
       = (Inr \<lparr>Name = ''A'', City = ''B'', Country = ''C'', IataCode = []\<rparr>,
          after_element (TComma # tokens_of congonhas @ [TRBracket]))
   \<and> Check \<lparr>Name = ''A'', City = ''B'', Country = ''C'', IataCode = []\<rparr> \<noteq> []
   \<and> HandleUpsert Upsert \<lparr>FlushErr = None\<rparr>
        (TLBracket # array_prefix [congonhas] @ TComma # tokens_of no_code @ TComma # tokens_of congonhas @ [TRBracket])
        (start empty_db) =
        \<lparr>db = one_row,
         resp = \<lparr>status = Some StatusBadRequest, flushed = False,
                  docs = [ErrorResponse ''[{"field":"iata_code","error":"iata_code is a required field"}]'']\<rparr>,
         trace = [EvToken LBracket,
                  EvMore, EvDecode, EvCheck congonhas_request, EvUpsert (ToAirport congonhas_request),
                  EvMore, EvDecode, EvCheck \<lparr>Name = ''A'', City = ''B'', Country = ''C'', IataCode = []\<rparr>,
                  EvRespondWithError StatusBadRequest
                    ''[{"field":"iata_code","error":"iata_code is a required field"}]'']\<rparr>
   \<and> More (array_position [congonhas] (TComma # tokens_of bad_code @ TComma # tokens_of congonhas @ [TRBracket]))
   \<and> Decode (array_position [congonhas] (TComma # tokens_of bad_code @ TComma # tokens_of congonhas @ [TRBracket]))
       = (Inr bad_code_request, after_element (TComma # tokens_of congonhas @ [TRBracket]))
   \<and> Check bad_code_request = []
   \<and> failing_on ''BAD'' one_row (ToAirport bad_code_request) = Inl ''database error''
   \<and> HandleUpsert (failing_on ''BAD'') \<lparr>FlushErr = None\<rparr>
        (TLBracket # array_prefix [congonhas] @ TComma # tokens_of bad_code @ TComma # tokens_of congonhas @ [TRBracket])
        (start empty_db) =
        \<lparr>db = one_row,
         resp = \<lparr>status = Some StatusInternalServerError, flushed = False,
                  docs = [ErrorResponse ''error upserting airport: database error'']\<rparr>,
         trace = [EvToken LBracket,
                  EvMore, EvDecode, EvCheck congonhas_request, EvUpsert (ToAirport congonhas_request),
                  EvMore, EvDecode, EvCheck bad_code_request, EvUpsert (ToAirport bad_code_request),
                  EvRespondWithError StatusInternalServerError ''error upserting airport: database error'']\<rparr>\<close>
proof -
  let ?tail = "TComma # tokens_of congonhas @ [TRBracket]"
  let ?req = "\<lparr>Name = ''A'', City = ''B'', Country = ''C'', IataCode = []\<rparr>"
  have h1: "list_all2 (\<lambda>v r. unmarshal_request v = Inr r) [congonhas] [congonhas_request]"
    by (simp add: unmarshal_congonhas)
  have h2: "\<forall>r \<in> set [congonhas_request]. Check r = []"
    by (simp add: Check_congonhas)
  have m: "More (array_position [congonhas] (TComma # ts))" for ts
    by (simp add: array_position_def More_after_element)
  have d: "Decode (array_position [congonhas] (TComma # tokens_of v @ ?tail)) = (unmarshal_request v, after_element ?tail)" for v
    by (simp add: array_position_def Decode_after_element del: tokens_of.simps)
  have d1: "Decode (array_position [congonhas] (TComma # TNumber ''1'' # ?tail)) = (Inl UnmarshalTypeError, after_element ?tail)"
    using d [of "JNumber ''1''"] by (simp add: unmarshal_request_def del: tokens_of.simps(5,6))
  have d2: "Decode (array_position [congonhas] (TComma # tokens_of no_code @ ?tail)) = (Inr ?req, after_element ?tail)"
    using d [of no_code] by (simp add: unmarshal_no_code del: tokens_of.simps)
  have d3: "Decode (array_position [congonhas] (TComma # tokens_of bad_code @ ?tail)) = (Inr bad_code_request, after_element ?tail)"
    using d [of bad_code] by (simp add: unmarshal_bad_code del: tokens_of.simps)
  have c2: "Check ?req \<noteq> []" by (simp add: Check_no_code)
  note t1 = first_failure_stops_stream [OF h1 h2 persist_congonhas m, of "TNumber ''1'' # ?tail" "\<lparr>FlushErr = None\<rparr>",
      THEN conjunct1, rule_format, OF d1]
  note t2 = first_failure_stops_stream [OF h1 h2 persist_congonhas m, of "tokens_of no_code @ ?tail" "\<lparr>FlushErr = None\<rparr>",
      THEN conjunct2, THEN conjunct1, rule_format, OF conjI [OF d2 c2]]
  note t3 = first_failure_stops_stream [OF h1 h2 persist_congonhas_failing m, of "tokens_of bad_code @ ?tail" "\<lparr>FlushErr = None\<rparr>",
      THEN conjunct2, THEN conjunct2, rule_format, OF conjI [OF d3 conjI [OF Check_bad_code failing_on_bad]]]
  show ?thesis
    using h1 persist_congonhas persist_congonhas_failing m d1 d2 d3 c2 Check_bad_code failing_on_bad t1 t2 t3
    by (simp add: failed_run_def element_events_def Check_congonhas Check_no_code message_no_code
          del: tokens_of.simps)
qed

subsection \<open>C2: the flush and the closing bracket\<close>

text \<open>
  Claim C2 says that on the streaming path the flush precedes the read of the closing
  \<^verbatim>\<open>]\<close>. The handler reads the closing bracket first: on the body \<^verbatim>\<open>[]\<close> its calls are
  the token read for \<^verbatim>\<open>[\<close>, \<^verbatim>\<open>More\<close>, the token read for \<^verbatim>\<open>]\<close>, the flush and the
  write of the success body, so no flush stands before the read of \<^verbatim>\<open>]\<close>.
\<close>

theorem flush_before_close_counterexample:
  "trace (HandleUpsert Upsert \<lparr>FlushErr = None\<rparr> [TLBracket, TRBracket] (start empty_db))
     = [EvToken LBracket, EvMore, EvToken RBracket, EvFlush, EvRespondAfterFlush]
   \<and> \<not> precedes EvFlush (EvToken RBracket)
        (trace (HandleUpsert Upsert \<lparr>FlushErr = None\<rparr> [TLBracket, TRBracket] (start empty_db)))"
  by (simp add: handler_defs)

text \<open>
  Claim C2 as amended: the flush follows the read of the closing \<^verbatim>\<open>]\<close>. In every run
  of the streaming handler that flushes, the body is \<^verbatim>\<open>[\<close>, elements \<open>vs\<close> that all
  decode, pass validation and are stored, and then the token \<^verbatim>\<open>]\<close> (whatever follows
  it); the read of the token at that place returns the delimiter \<^verbatim>\<open>]\<close>, so the check
  of the closing bracket has passed; and the calls of the run are the read of \<^verbatim>\<open>[\<close>,
  the calls for the elements, the last \<^verbatim>\<open>More\<close>, the read of \<^verbatim>\<open>]\<close>, then the flush, and
  after the flush only the write of the success body (or, when the flush returns an
  error, the error response with status 500). So the read of \<^verbatim>\<open>]\<close> stands before the
  flush and no read of it follows the flush.
\<close>

theorem flush_follows_close:
  "EvFlush \<in> set (trace (HandleUpsert up ctr body (start d))) \<longrightarrow>
     (\<exists>vs rs rest.
         body = TLBracket # array_prefix vs @ TRBracket # rest
       \<and> list_all2 (\<lambda>v r. unmarshal_request v = Inr r) vs rs
       \<and> (\<forall>r \<in> set rs. Check r = [])
       \<and> persist_all up rs d \<noteq> None
       \<and> fst (Token (array_position vs (TRBracket # rest))) = Inr (Delim RBracket)
       \<and> trace (HandleUpsert up ctr body (start d))
           = EvToken LBracket # concat (map element_events rs)
               @ [EvMore, EvToken RBracket, EvFlush,
                  (case FlushErr ctr of None \<Rightarrow> EvRespondAfterFlush
                   | Some e \<Rightarrow> EvRespondWithError StatusInternalServerError e)])
     \<and> precedes (EvToken RBracket) EvFlush (trace (HandleUpsert up ctr body (start d)))
     \<and> \<not> precedes EvFlush (EvToken RBracket) (trace (HandleUpsert up ctr body (start d)))"
proof
  assume f: "EvFlush \<in> set (trace (HandleUpsert up ctr body (start d)))"
  from flush_sound [OF f] obtain vs rs rest d' where
    body: "body = TLBracket # array_prefix vs @ TRBracket # rest"
    and vs: "list_all2 (\<lambda>v r. unmarshal_request v = Inr r) vs rs"
    and ck: "\<forall>r \<in> set rs. Check r = []"
    and ps: "persist_all up rs d = Some d'"
    by auto
  let ?last = "case FlushErr ctr of None \<Rightarrow> EvRespondAfterFlush
               | Some e \<Rightarrow> EvRespondWithError StatusInternalServerError e"
  have tr: "trace (HandleUpsert up ctr body (start d))
      = EvToken LBracket # concat (map element_events rs) @ [EvMore, EvToken RBracket, EvFlush, ?last]"
    unfolding body using vs ck ps by (rule streaming_flushes)
  have el: "list_all is_loop_event (concat (map element_events rs))"
    by (induction rs) (simp_all add: element_events_def)
  note nf = loop_events_no_flush [OF el]
  have last: "?last \<noteq> EvToken RBracket" "?last \<noteq> EvFlush"
    by (simp_all split: option.splits)
  have p1: "precedes (EvToken RBracket) EvFlush (trace (HandleUpsert up ctr body (start d)))"
    unfolding tr by (simp add: precedes_append)
  have p2: "\<not> precedes EvFlush (EvToken RBracket) (trace (HandleUpsert up ctr body (start d)))"
    unfolding tr using nf last by (auto simp: precedes_append dest: precedes_in_set)
  have "\<exists>vs rs rest.
         body = TLBracket # array_prefix vs @ TRBracket # rest
       \<and> list_all2 (\<lambda>v r. unmarshal_request v = Inr r) vs rs
       \<and> (\<forall>r \<in> set rs. Check r = [])
       \<and> persist_all up rs d \<noteq> None
       \<and> fst (Token (array_position vs (TRBracket # rest))) = Inr (Delim RBracket)
       \<and> trace (HandleUpsert up ctr body (start d))
           = EvToken LBracket # concat (map element_events rs) @ [EvMore, EvToken RBracket, EvFlush, ?last]"
    using body vs ck ps tr Token_close by (intro exI [of _ vs] exI [of _ rs] exI [of _ rest]) simp
  then show "(\<exists>vs rs rest.
         body = TLBracket # array_prefix vs @ TRBracket # rest
       \<and> list_all2 (\<lambda>v r. unmarshal_request v = Inr r) vs rs
       \<and> (\<forall>r \<in> set rs. Check r = [])
       \<and> persist_all up rs d \<noteq> None
       \<and> fst (Token (array_position vs (TRBracket # rest))) = Inr (Delim RBracket)
       \<and> trace (HandleUpsert up ctr body (start d))
           = EvToken LBracket # concat (map element_events rs) @ [EvMore, EvToken RBracket, EvFlush, ?last])
     \<and> precedes (EvToken RBracket) EvFlush (trace (HandleUpsert up ctr body (start d)))
     \<and> \<not> precedes EvFlush (EvToken RBracket) (trace (HandleUpsert up ctr body (start d)))"
    using p1 p2 by blast
qed

text \<open>The array of the one airport, with a flush that succeeds.\<close>

theorem flush_follows_close_witness:
  "trace (HandleUpsert Upsert \<lparr>FlushErr = None\<rparr> (tokens_of (JArray [congonhas])) (start empty_db))
     = [EvToken LBracket, EvMore, EvDecode, EvCheck congonhas_request, EvUpsert (ToAirport congonhas_request),
        EvMore, EvToken RBracket, EvFlush, EvRespondAfterFlush]
   \<and> EvFlush \<in> set (trace (HandleUpsert Upsert \<lparr>FlushErr = None\<rparr> (tokens_of (JArray [congonhas])) (start empty_db)))
   \<and> tokens_of (JArray [congonhas]) = TLBracket # array_prefix [congonhas] @ TRBracket # []
   \<and> fst (Token (array_position [congonhas] (TRBracket # []))) = Inr (Delim RBracket)
   \<and> precedes (EvToken RBracket) EvFlush
        (trace (HandleUpsert Upsert \<lparr>FlushErr = None\<rparr> (tokens_of (JArray [congonhas])) (start empty_db)))
   \<and> \<not> precedes EvFlush (EvToken RBracket)
        (trace (HandleUpsert Upsert \<lparr>FlushErr = None\<rparr> (tokens_of (JArray [congonhas])) (start empty_db)))"
proof -
  have h1: "list_all2 (\<lambda>v r. unmarshal_request v = Inr r) [congonhas] [congonhas_request]"
    by (simp add: unmarshal_congonhas)
  have h2: "\<forall>r \<in> set [congonhas_request]. Check r = []"
    by (simp add: Check_congonhas)
  have t: "trace (HandleUpsert Upsert \<lparr>FlushErr = None\<rparr> (tokens_of (JArray [congonhas])) (start empty_db))
     = [EvToken LBracket, EvMore, EvDecode, EvCheck congonhas_request, EvUpsert (ToAirport congonhas_request),
        EvMore, EvToken RBracket, EvFlush, EvRespondAfterFlush]"
    using streaming_valid [OF h1 h2 persist_congonhas, of "\<lparr>FlushErr = None\<rparr>"]
    by (simp add: element_events_def del: tokens_of.simps)
  have f: "EvFlush \<in> set (trace (HandleUpsert Upsert \<lparr>FlushErr = None\<rparr> (tokens_of (JArray [congonhas])) (start empty_db)))"
    unfolding t by simp
  have b: "tokens_of (JArray [congonhas]) = TLBracket # array_prefix [congonhas] @ TRBracket # []"
    by (simp add: tokens_of_array del: tokens_of.simps)
  have k: "fst (Token (array_position [congonhas] (TRBracket # []))) = Inr (Delim RBracket)"
    by (rule Token_close)
  show ?thesis
    using t f b k
      flush_follows_close [of Upsert "\<lparr>FlushErr = None\<rparr>" "tokens_of (JArray [congonhas])" empty_db]
    by blast
qed

subsection \<open>C3: the two handlers on a valid array\<close>

text \<open>
  Claim C3 says that on every valid non-empty array the two handlers give the same
  store and the same success response. The store is the same, but the response of the
  streaming handler depends on its flush as well: on the array of the one airport, with
  a flush that fails, it answers with status 500 and the message of the flush error
  (the handler test of a flush error), where the other handler answers with status 200.
\<close>

theorem streaming_flush_error_counterexample:
  "status (resp (HandleUpsert Upsert \<lparr>FlushErr = Some ''flush error''\<rparr> (tokens_of (JArray [congonhas])) (start empty_db)))
     = Some StatusInternalServerError
   \<and> docs (resp (HandleUpsert Upsert \<lparr>FlushErr = Some ''flush error''\<rparr> (tokens_of (JArray [congonhas])) (start empty_db)))
     = [ErrorResponse ''flush error'']
   \<and> status (resp (HandleNonStreamingUpsert io_ReadAll json_Unmarshal Upsert (tokens_of (JArray [congonhas])) (start empty_db)))
     = Some StatusOK
   \<and> docs (resp (HandleNonStreamingUpsert io_ReadAll json_Unmarshal Upsert (tokens_of (JArray [congonhas])) (start empty_db)))
     = [UpsertAirportResponse ''airports upserted'']"
proof -
  have h1: "list_all2 (\<lambda>v r. unmarshal_request v = Inr r) [congonhas] [congonhas_request]"
    by (simp add: unmarshal_congonhas)
  have h2: "\<forall>r \<in> set [congonhas_request]. Check r = []"
    by (simp add: Check_congonhas)
  show ?thesis
    using streaming_valid [OF h1 h2 persist_congonhas, of "\<lparr>FlushErr = Some ''flush error''\<rparr>"]
      baseline_valid [OF h1 h2 persist_congonhas]
    by (simp del: tokens_of.simps)
qed

text \<open>
  Claim C3 as amended: let the body be the array of the values \<open>vs\<close>, not empty, each
  of which decodes to a request that passes validation, and let every upsert succeed,
  leaving the store \<open>d'\<close>. Then both handlers leave the store \<open>d'\<close>; the handler that
  reads the whole body answers with status 200 and \<^verbatim>\<open>{"message":"airports upserted"}\<close>;
  and the streaming handler gives the same status and body provided its flush succeeds.
  (By \<open>json_Unmarshal_accepts\<close> these bodies are all the bodies that unmarshal to a
  non-empty slice of requests.)
\<close>

theorem streaming_equals_baseline:
  assumes "vs \<noteq> []"
    and "list_all2 (\<lambda>v r. unmarshal_request v = Inr r) vs rs"
    and "\<forall>r \<in> set rs. Check r = []"
    and "persist_all up rs d = Some d'"
  shows "db (HandleUpsert up ctr (tokens_of (JArray vs)) (start d)) = d'
       \<and> db (HandleNonStreamingUpsert io_ReadAll json_Unmarshal up (tokens_of (JArray vs)) (start d)) = d'
       \<and> status (resp (HandleNonStreamingUpsert io_ReadAll json_Unmarshal up (tokens_of (JArray vs)) (start d))) = Some StatusOK
       \<and> docs (resp (HandleNonStreamingUpsert io_ReadAll json_Unmarshal up (tokens_of (JArray vs)) (start d)))
           = [UpsertAirportResponse ''airports upserted'']
       \<and> (FlushErr ctr = None \<longrightarrow>
            status (resp (HandleUpsert up ctr (tokens_of (JArray vs)) (start d))) = Some StatusOK
          \<and> docs (resp (HandleUpsert up ctr (tokens_of (JArray vs)) (start d)))
              = [UpsertAirportResponse ''airports upserted''])"
  using streaming_valid [OF assms(2,3,4), of ctr] baseline_valid [OF assms(2,3,4)]
  by (simp del: tokens_of.simps split: option.splits)

theorem streaming_equals_baseline_witness:
  "[congonhas] \<noteq> []
   \<and> list_all2 (\<lambda>v r. unmarshal_request v = Inr r) [congonhas] [congonhas_request]
   \<and> Check congonhas_request = []
   \<and> persist_all Upsert [congonhas_request] empty_db = Some one_row
   \<and> FlushErr \<lparr>FlushErr = None\<rparr> = None
   \<and> db (HandleUpsert Upsert \<lparr>FlushErr = None\<rparr> (tokens_of (JArray [congonhas])) (start empty_db)) = one_row
   \<and> db (HandleNonStreamingUpsert io_ReadAll json_Unmarshal Upsert (tokens_of (JArray [congonhas])) (start empty_db)) = one_row
   \<and> status (resp (HandleNonStreamingUpsert io_ReadAll json_Unmarshal Upsert (tokens_of (JArray [congonhas])) (start empty_db)))
        = Some StatusOK
   \<and> docs (resp (HandleNonStreamingUpsert io_ReadAll json_Unmarshal Upsert (tokens_of (JArray [congonhas])) (start empty_db)))
        = [UpsertAirportResponse ''airports upserted'']
   \<and> status (resp (HandleUpsert Upsert \<lparr>FlushErr = None\<rparr> (tokens_of (JArray [congonhas])) (start empty_db)))
        = Some StatusOK
   \<and> docs (resp (HandleUpsert Upsert \<lparr>FlushErr = None\<rparr> (tokens_of (JArray [congonhas])) (start empty_db)))
        = [UpsertAirportResponse ''airports upserted'']"
proof -
  have h1: "list_all2 (\<lambda>v r. unmarshal_request v = Inr r) [congonhas] [congonhas_request]"
    by (simp add: unmarshal_congonhas)
  have h2: "\<forall>r \<in> set [congonhas_request]. Check r = []"
    by (simp add: Check_congonhas)
  have h0: "[congonhas] \<noteq> []" by simp
  show ?thesis
    using h1 h2 persist_congonhas
      streaming_equals_baseline [OF h0 h1 h2 persist_congonhas, of "\<lparr>FlushErr = None\<rparr>"]
    by (simp del: tokens_of.simps)
qed

subsection \<open>C4: only validated candidates are stored\<close>

text \<open>
  Claim C4: in every run of either handler (whatever the body, the upsert function, the
  flush, and for the handler that reads the whole body whatever \<^verbatim>\<open>ioReadAll\<close> and
  \<^verbatim>\<open>jsonUnmarshal\<close> return), a call of the upsert comes directly after the validation of
  the request it stores, and that validation returned no violation. No request that
  failed validation is ever handed to the store.
\<close>

theorem upsert_only_after_valid_check:
  "(trace (HandleUpsert up ctr body (start d)) = pre @ EvUpsert a # post \<longrightarrow>
      (\<exists>pre' req. pre = pre' @ [EvCheck req] \<and> Check req = [] \<and> a = ToAirport req))
   \<and> (trace (HandleNonStreamingUpsert ioReadAll jsonUnmarshal up body (start d)) = pre @ EvUpsert a # post \<longrightarrow>
      (\<exists>pre' req. pre = pre' @ [EvCheck req] \<and> Check req = [] \<and> a = ToAirport req))"
  using HandleUpsert_checked [of up ctr body d]
    HandleNonStreamingUpsert_checked [of ioReadAll jsonUnmarshal up body d]
  unfolding checked_upserts_def by blast

text \<open>The array of the one airport: both handlers check it and then store it.\<close>

theorem upsert_only_after_valid_check_witness:
  "trace (HandleUpsert Upsert \<lparr>FlushErr = None\<rparr> (tokens_of (JArray [congonhas])) (start empty_db))
     = [EvToken LBracket, EvMore, EvDecode, EvCheck congonhas_request]
         @ EvUpsert (ToAirport congonhas_request) # [EvMore, EvToken RBracket, EvFlush, EvRespondAfterFlush]
   \<and> trace (HandleNonStreamingUpsert io_ReadAll json_Unmarshal Upsert (tokens_of (JArray [congonhas])) (start empty_db))
     = [EvReadAll, EvUnmarshal, EvCheck congonhas_request]
         @ EvUpsert (ToAirport congonhas_request) # [EvRespond StatusOK]
   \<and> (\<exists>pre' req. [EvToken LBracket, EvMore, EvDecode, EvCheck congonhas_request] = pre' @ [EvCheck req]
         \<and> Check req = [] \<and> ToAirport congonhas_request = ToAirport req)
   \<and> (\<exists>pre' req. [EvReadAll, EvUnmarshal, EvCheck congonhas_request] = pre' @ [EvCheck req]
         \<and> Check req = [] \<and> ToAirport congonhas_request = ToAirport req)"
proof -
  have h1: "list_all2 (\<lambda>v r. unmarshal_request v = Inr r) [congonhas] [congonhas_request]"
    by (simp add: unmarshal_congonhas)
  have h2: "\<forall>r \<in> set [congonhas_request]. Check r = []"
    by (simp add: Check_congonhas)
  have s: "trace (HandleUpsert Upsert \<lparr>FlushErr = None\<rparr> (tokens_of (JArray [congonhas])) (start empty_db))
     = [EvToken LBracket, EvMore, EvDecode, EvCheck congonhas_request]
         @ EvUpsert (ToAirport congonhas_request) # [EvMore, EvToken RBracket, EvFlush, EvRespondAfterFlush]"
    using streaming_valid [OF h1 h2 persist_congonhas, of "\<lparr>FlushErr = None\<rparr>"]
    by (simp add: element_events_def del: tokens_of.simps)
  have b: "trace (HandleNonStreamingUpsert io_ReadAll json_Unmarshal Upsert (tokens_of (JArray [congonhas])) (start empty_db))
     = [EvReadAll, EvUnmarshal, EvCheck congonhas_request]
         @ EvUpsert (ToAirport congonhas_request) # [EvRespond StatusOK]"
    using baseline_valid [OF h1 h2 persist_congonhas]
    by (simp add: request_events_def del: tokens_of.simps)
  note c = upsert_only_after_valid_check
  show ?thesis
    using s b c [THEN conjunct1, rule_format, OF s] c [THEN conjunct2, rule_format, OF b]
    by blast
qed

subsection \<open>C5: the code is the identity of a row\<close>

text \<open>
  Claim C5: on a table whose codes are unique (the constraint the conflict target of
  \<^verbatim>\<open>upsertQuery\<close> rests on) and a connection that works, upserting \<open>a\<close> and then
  \<open>b\<close> with the same code succeeds twice and leaves exactly one row with that code,
  which is \<open>b\<close>: name, city and country of the later candidate. The rows with other
  codes are as they were, and the codes are unique again. The first upsert creates the
  row when the code was not in the table; the second replaces the attributes of the row
  that is there and adds none. The handlers call \<^verbatim>\<open>Upsert\<close> once for each element, in
  the order of the array, so this is what two elements of one array with the same code
  do as well as two requests.
\<close>

theorem upsert_same_code:
  assumes "distinct (map iata_code (airports d))" and "conn_err d = None" and "iata_code a = iata_code b"
  shows "\<exists>d1 d2. Upsert d a = Inr d1 \<and> Upsert d1 b = Inr d2
           \<and> filter (\<lambda>row. iata_code row = iata_code b) (airports d2) = [b]
           \<and> filter (\<lambda>row. iata_code row \<noteq> iata_code b) (airports d2)
               = filter (\<lambda>row. iata_code row \<noteq> iata_code b) (airports d)
           \<and> distinct (map iata_code (airports d2))
           \<and> (iata_code a \<notin> set (map iata_code (airports d)) \<longrightarrow> airports d1 = airports d @ [a])
           \<and> airports d2 = map (\<lambda>row. if iata_code row = iata_code b then b else row) (airports d1)"
proof -
  let ?r1 = "upsertQuery (name a) (city a) (country a) (iata_code a) (airports d)"
  let ?d1 = "d\<lparr>airports := ?r1\<rparr>"
  let ?r2 = "upsertQuery (name b) (city b) (country b) (iata_code b) ?r1"
  let ?d2 = "?d1\<lparr>airports := ?r2\<rparr>"
  have u1: "Upsert d a = Inr ?d1" using assms(2) by (rule Upsert_ok)
  have u2: "Upsert ?d1 b = Inr ?d2" using assms(2) by (simp add: Upsert_ok)
  have dist1: "distinct (map iata_code ?r1)" using assms(1) by (rule upsertQuery_distinct)
  have in1: "iata_code b \<in> set (map iata_code ?r1)"
    using assms(3) by (simp add: upsertQuery_codes)
  have same: "filter (\<lambda>row. iata_code row = iata_code b) ?r2 = [b]"
    using dist1 by (rule upsertQuery_same)
  have others: "filter (\<lambda>row. iata_code row \<noteq> iata_code b) ?r2 = filter (\<lambda>row. iata_code row \<noteq> iata_code b) (airports d)"
    using assms(3) by (simp add: upsertQuery_others)
  have dist2: "distinct (map iata_code ?r2)" using dist1 by (rule upsertQuery_distinct)
  have created: "iata_code a \<notin> set (map iata_code (airports d)) \<longrightarrow> ?r1 = airports d @ [a]"
  proof
    assume "iata_code a \<notin> set (map iata_code (airports d))"
    then have "\<not> (\<exists>row \<in> set (airports d). iata_code row = iata_code a)"
      by (metis image_eqI set_map)
    then show "?r1 = airports d @ [a]" by (simp add: upsertQuery_def)
  qed
  have "?r2 = map (\<lambda>row. if iata_code row = iata_code b then row\<lparr>name := name b, city := city b, country := country b\<rparr> else row) ?r1"
    using in1 by (auto simp: upsertQuery_def [of "name b"])
  also have "\<dots> = map (\<lambda>row. if iata_code row = iata_code b then b else row) ?r1"
    by (rule map_cong) (simp_all add: row_replaced)
  finally have replaced: "?r2 = map (\<lambda>row. if iata_code row = iata_code b then b else row) ?r1" .
  show ?thesis
    using u1 u2 same others dist2 created replaced by (intro exI [of _ ?d1] exI [of _ ?d2]) simp
qed

text \<open>The airport upserted into the empty table, and then once more under another name.\<close>

theorem upsert_same_code_witness:
  "distinct (map iata_code (airports empty_db))
   \<and> conn_err empty_db = None
   \<and> iata_code (ToAirport congonhas_request) = iata_code ((ToAirport congonhas_request)\<lparr>name := ''Congonhas''\<rparr>)
   \<and> (\<exists>d1 d2. Upsert empty_db (ToAirport congonhas_request) = Inr d1
         \<and> Upsert d1 ((ToAirport congonhas_request)\<lparr>name := ''Congonhas''\<rparr>) = Inr d2
         \<and> airports d1 = [ToAirport congonhas_request]
         \<and> airports d2 = [(ToAirport congonhas_request)\<lparr>name := ''Congonhas''\<rparr>])"
proof -
  let ?a = "ToAirport congonhas_request"
  let ?b = "(ToAirport congonhas_request)\<lparr>name := ''Congonhas''\<rparr>"
  have h1: "distinct (map iata_code (airports empty_db))" by (simp add: empty_db_def)
  have h2: "conn_err empty_db = None" by (simp add: empty_db_def)
  have h3: "iata_code ?a = iata_code ?b" by simp
  obtain d1 d2 where u: "Upsert empty_db ?a = Inr d1" "Upsert d1 ?b = Inr d2"
    and created: "iata_code ?a \<notin> set (map iata_code (airports empty_db)) \<longrightarrow> airports d1 = airports empty_db @ [?a]"
    and replaced: "airports d2 = map (\<lambda>row. if iata_code row = iata_code ?b then ?b else row) (airports d1)"
    using upsert_same_code [OF h1 h2 h3] by blast
  have d1: "airports d1 = [?a]" using created by (simp add: empty_db_def)
  have d2: "airports d2 = [?b]" using replaced d1 by simp
  show ?thesis using h1 h2 u d1 d2 by auto
qed

subsection \<open>C6: the required fields\<close>

text \<open>
  Claim C6, on the validator as the spec describes it: the violations name, in the
  fixed order name, city, country, iata_code, exactly the fields that are empty or hold
  white space only; each carries its field's reason; the list is empty exactly when all
  four fields are present. Geolocation is not required: a \<^verbatim>\<open>geoloc\<close> member of the
  element, wherever it stands and whatever it holds, does not reach the request that is
  validated.
\<close>

theorem required_fields:
  "map field (Check req) =
     (if list_all is_space (Name req) then [''name''] else [])
     @ (if list_all is_space (City req) then [''city''] else [])
     @ (if list_all is_space (Country req) then [''country''] else [])
     @ (if list_all is_space (IataCode req) then [''iata_code''] else [])
   \<and> map reason (Check req) = map (\<lambda>f. f @ '' is a required field'') (map field (Check req))
   \<and> (Check req = []) =
       (present (Name req) \<and> present (City req) \<and> present (Country req) \<and> present (IataCode req))
   \<and> unmarshal_request (JObject (ms @ (''geoloc'', g) # ns)) = unmarshal_request (JObject (ms @ ns))"
  by (auto simp: Check_def required_def blank_iff [symmetric] unmarshal_request_def unmarshal_members_geoloc)

text \<open>A name of a blank and a tab, and no code: two violations, name first.\<close>

theorem required_fields_witness:
  "map field (Check \<lparr>Name = [CHR '' '', CHR 0x09], City = ''B'', Country = ''C'', IataCode = []\<rparr>)
     = [''name'', ''iata_code'']
   \<and> map reason (Check \<lparr>Name = [CHR '' '', CHR 0x09], City = ''B'', Country = ''C'', IataCode = []\<rparr>)
     = [''name is a required field'', ''iata_code is a required field'']
   \<and> Check \<lparr>Name = [CHR '' '', CHR 0x09], City = ''B'', Country = ''C'', IataCode = []\<rparr> \<noteq> []"
proof -
  let ?r = "\<lparr>Name = [CHR '' '', CHR 0x09], City = ''B'', Country = ''C'', IataCode = []\<rparr>"
  note t = required_fields [of ?r "[]" JNull "[]"]
  have f: "map field (Check ?r) = [''name'', ''iata_code'']"
    using t by (simp add: is_space_def)
  have "map reason (Check ?r) = map (\<lambda>f. f @ '' is a required field'') (map field (Check ?r))"
    using t by blast
  then have r: "map reason (Check ?r) = [''name is a required field'', ''iata_code is a required field'']"
    by (simp only: f list.map append.simps)
  have "Check ?r \<noteq> []" using f by auto
  then show ?thesis using f r by blast
qed

subsection \<open>C7: the empty array\<close>

text \<open>
  Claim C7 says that the body \<^verbatim>\<open>[]\<close> on the streaming endpoint gives status 200 with
  the success body. When the flush fails the handler answers with status 500 and the
  message of the flush error, as its own test of a flush error expects.
\<close>

theorem empty_array_flush_error:
  "resp (HandleUpsert Upsert \<lparr>FlushErr = Some ''flush error''\<rparr> [TLBracket, TRBracket] (start empty_db))
     = \<lparr>status = Some StatusInternalServerError, flushed = False, docs = [ErrorResponse ''flush error'']\<rparr>
   \<and> status (resp (HandleUpsert Upsert \<lparr>FlushErr = Some ''flush error''\<rparr> [TLBracket, TRBracket] (start empty_db)))
     \<noteq> Some StatusOK"
  by (simp add: handler_defs)

text \<open>
  Claim C7 as amended: on the body \<^verbatim>\<open>[]\<close> the streaming handler reads the opening
  bracket, asks for more, reads the closing bracket and flushes; it makes no call to
  decode, validate or upsert and leaves the store as it was. When the flush succeeds the
  response is status 200 with the body \<^verbatim>\<open>{"message":"airports upserted"}\<close>; when the
  flush fails it is status 500 with the message of the flush error.
\<close>

theorem empty_array_outcome:
  "HandleUpsert up ctr [TLBracket, TRBracket] (start d) =
     (case FlushErr ctr of
        None \<Rightarrow>
          \<lparr>db = d,
           resp = \<lparr>status = Some StatusOK, flushed = True,
                    docs = [UpsertAirportResponse ''airports upserted'']\<rparr>,
           trace = [EvToken LBracket, EvMore, EvToken RBracket, EvFlush, EvRespondAfterFlush]\<rparr>
      | Some e \<Rightarrow>
          \<lparr>db = d,
           resp = \<lparr>status = Some StatusInternalServerError, flushed = False, docs = [ErrorResponse e]\<rparr>,
           trace = [EvToken LBracket, EvMore, EvToken RBracket, EvFlush,
                    EvRespondWithError StatusInternalServerError e]\<rparr>)"
  by (simp add: handler_defs split: option.splits)

subsection \<open>C8: a body that does not open an array\<close>

text \<open>
  Claim C8: when the body of a streaming request does not begin with the token \<^verbatim>\<open>[\<close>
  (it is empty, or begins with any other token), the handler answers with status 400 and
  the body \<^verbatim>\<open>{"error":"invalid JSON: expected '[' at start"}\<close>. The store is as it was,
  and before this answer the handler has made one call, the read of the token: nothing
  was written to the response and nothing was flushed.
\<close>

theorem missing_open_bracket:
  assumes "\<forall>rest. body \<noteq> TLBracket # rest"
  shows "HandleUpsert up ctr body (start d) =
     \<lparr>db = d,
      resp = \<lparr>status = Some StatusBadRequest, flushed = False,
               docs = [ErrorResponse ''invalid JSON: expected '[' at start'']\<rparr>,
      trace = [EvToken LBracket, EvRespondWithError StatusBadRequest ''invalid JSON: expected '[' at start'']\<rparr>"
proof -
  obtain err dec' where "readExpectedToken (NewDecoder body) LBracket (start d) = (Some err, dec', log (EvToken LBracket) (start d))"
    using readExpectedToken_not_open [OF assms] by blast
  then show ?thesis
    by (simp add: HandleUpsert_def RespondWithError_def log_def start_def new_response_def
          Write_def WriteHeader_def)
qed

text \<open>The body of the handler test "missing opening [": the object, then \<^verbatim>\<open>]\<close>.\<close>

theorem missing_open_bracket_witness:
  "(\<forall>rest. tokens_of congonhas @ [TRBracket] \<noteq> TLBracket # rest)
   \<and> HandleUpsert Upsert \<lparr>FlushErr = None\<rparr> (tokens_of congonhas @ [TRBracket]) (start empty_db) =
     \<lparr>db = empty_db,
      resp = \<lparr>status = Some StatusBadRequest, flushed = False,
               docs = [ErrorResponse ''invalid JSON: expected '[' at start'']\<rparr>,
      trace = [EvToken LBracket, EvRespondWithError StatusBadRequest ''invalid JSON: expected '[' at start'']\<rparr>"
proof -
  have h: "\<forall>rest. tokens_of congonhas @ [TRBracket] \<noteq> TLBracket # rest"
    by (simp add: congonhas_def)
  show ?thesis
    using h missing_open_bracket [OF h, of Upsert "\<lparr>FlushErr = None\<rparr>" empty_db] by simp
qed

subsection \<open>C9: a failing upsert\<close>

text \<open>
  Claim C9: let the elements before element k decode, pass validation and be stored,
  leaving the store \<open>d'\<close>, and let element k decode to \<open>r\<close>, pass validation, and its
  upsert fail with the message \<open>e\<close>. Then the streaming handler (whatever follows
  element k in the body) answers with status 500 and the message
  \<^verbatim>\<open>error upserting airport: \<close> followed by \<open>e\<close>; so does the handler that reads the
  whole body, when the body unmarshals to these requests followed by any others. In both
  runs the failing upsert of \<open>r\<close> is the last call before the response: it is made once,
  the store stays \<open>d'\<close>, and no later element is processed.
\<close>

theorem persistence_failure_response:
  assumes "list_all2 (\<lambda>v r. unmarshal_request v = Inr r) vs rs"
    and "\<forall>x \<in> set rs. Check x = []"
    and "persist_all up rs d = Some d'"
    and "unmarshal_request v = Inr r"
    and "Check r = []"
    and "up d' (ToAirport r) = Inl e"
  shows "HandleUpsert up ctr (TLBracket # array_prefix (vs @ [v]) @ rest) (start d) =
           \<lparr>db = d',
            resp = \<lparr>status = Some StatusInternalServerError, flushed = False,
                     docs = [ErrorResponse (''error upserting airport: '' @ e)]\<rparr>,
            trace = EvToken LBracket # concat (map element_events (rs @ [r]))
                      @ [EvRespondWithError StatusInternalServerError (''error upserting airport: '' @ e)]\<rparr>
       \<and> (json_Unmarshal body = Inr (rs @ r # rs') \<longrightarrow>
            HandleNonStreamingUpsert io_ReadAll json_Unmarshal up body (start d) =
              \<lparr>db = d',
               resp = \<lparr>status = Some StatusInternalServerError, flushed = False,
                        docs = [ErrorResponse (''error upserting airport: '' @ e)]\<rparr>,
               trace = [EvReadAll, EvUnmarshal] @ concat (map request_events (rs @ [r]))
                         @ [EvRespondWithError StatusInternalServerError (''error upserting airport: '' @ e)]\<rparr>)"
proof -
  let ?herr = "\<lparr>code = StatusInternalServerError, msg = ''error upserting airport: '' @ e\<rparr>"
  let ?wk = "\<lparr>db = d', resp = new_response, trace = EvToken LBracket # concat (map element_events rs) @ [EvMore]\<rparr>"
  have step: "processAirport up (array_position vs (next_element vs v @ rest)) ?wk
      = (Some ?herr, after_element rest, log (EvUpsert (ToAirport r)) (log (EvCheck r) (log EvDecode ?wk)))"
    using assms(4,5,6) by (simp add: processAirport_def Decode_next_element Let_def log_def)
  have "HandleUpsert up ctr (TLBracket # array_prefix vs @ next_element vs v @ rest) (start d)
      = RespondWithError (code ?herr) (msg ?herr) (log (EvUpsert (ToAirport r)) (log (EvCheck r) (log EvDecode ?wk)))"
    using assms(1,2,3) More_next_element step by (rule streaming_stops)
  then have S: "HandleUpsert up ctr (TLBracket # array_prefix (vs @ [v]) @ rest) (start d) =
           \<lparr>db = d',
            resp = \<lparr>status = Some StatusInternalServerError, flushed = False,
                     docs = [ErrorResponse (''error upserting airport: '' @ e)]\<rparr>,
            trace = EvToken LBracket # concat (map element_events (rs @ [r]))
                      @ [EvRespondWithError StatusInternalServerError (''error upserting airport: '' @ e)]\<rparr>"
    by (simp add: array_prefix_snoc RespondWithError_def log_def new_response_def Write_def WriteHeader_def
          element_events_def [of r])
  have B: "HandleNonStreamingUpsert io_ReadAll json_Unmarshal up body (start d) =
              \<lparr>db = d',
               resp = \<lparr>status = Some StatusInternalServerError, flushed = False,
                        docs = [ErrorResponse (''error upserting airport: '' @ e)]\<rparr>,
               trace = [EvReadAll, EvUnmarshal] @ concat (map request_events (rs @ [r]))
                         @ [EvRespondWithError StatusInternalServerError (''error upserting airport: '' @ e)]\<rparr>"
    if u: "json_Unmarshal body = Inr (rs @ r # rs')"
  proof -
    let ?w = "log EvUnmarshal (log EvReadAll (start d))"
    have "range_requests up (rs @ r # rs') ?w =
        (True, RespondWithError StatusInternalServerError (''error upserting airport: '' @ e)
                 (log (EvUpsert (ToAirport r)) (log (EvCheck r) (?w\<lparr>db := d', trace := trace ?w @ concat (map request_events rs)\<rparr>))))"
      using assms(2,3,5,6) by (intro range_requests_stop) (simp_all add: log_def start_def)
    then show ?thesis
      using u
      by (simp add: HandleNonStreamingUpsert_def io_ReadAll_def RespondWithError_def log_def start_def
            new_response_def Write_def WriteHeader_def request_events_def [of r])
  qed
  show ?thesis using S B by blast
qed

text \<open>
  The airport, an element whose upsert fails, and the airport again: both handlers
  store the first, answer with the wrapped error of the second, and stop.
\<close>

theorem persistence_failure_response_witness:
  "list_all2 (\<lambda>v r. unmarshal_request v = Inr r) [congonhas] [congonhas_request]
   \<and> Check congonhas_request = []
   \<and> persist_all (failing_on ''BAD'') [congonhas_request] empty_db = Some one_row
   \<and> unmarshal_request bad_code = Inr bad_code_request
   \<and> Check bad_code_request = []
   \<and> failing_on ''BAD'' one_row (ToAirport bad_code_request) = Inl ''database error''
   \<and> json_Unmarshal (tokens_of (JArray [congonhas, bad_code, congonhas]))
        = Inr ([congonhas_request] @ bad_code_request # [congonhas_request])
   \<and> HandleUpsert (failing_on ''BAD'') \<lparr>FlushErr = None\<rparr> (tokens_of (JArray [congonhas, bad_code, congonhas])) (start empty_db) =
        \<lparr>db = one_row,
         resp = \<lparr>status = Some StatusInternalServerError, flushed = False,
                  docs = [ErrorResponse ''error upserting airport: database error'']\<rparr>,
         trace = [EvToken LBracket,
                  EvMore, EvDecode, EvCheck congonhas_request, EvUpsert (ToAirport congonhas_request),
                  EvMore, EvDecode, EvCheck bad_code_request, EvUpsert (ToAirport bad_code_request),
                  EvRespondWithError StatusInternalServerError ''error upserting airport: database error'']\<rparr>
   \<and> HandleNonStreamingUpsert io_ReadAll json_Unmarshal (failing_on ''BAD'')
        (tokens_of (JArray [congonhas, bad_code, congonhas])) (start empty_db) =
        \<lparr>db = one_row,
         resp = \<lparr>status = Some StatusInternalServerError, flushed = False,
                  docs = [ErrorResponse ''error upserting airport: database error'']\<rparr>,
         trace = [EvReadAll, EvUnmarshal,
                  EvCheck congonhas_request, EvUpsert (ToAirport congonhas_request),
                  EvCheck bad_code_request, EvUpsert (ToAirport bad_code_request),
                  EvRespondWithError StatusInternalServerError ''error upserting airport: database error'']\<rparr>"
proof -
  have h1: "list_all2 (\<lambda>v r. unmarshal_request v = Inr r) [congonhas] [congonhas_request]"
    by (simp add: unmarshal_congonhas)
  have h2: "\<forall>x \<in> set [congonhas_request]. Check x = []"
    by (simp add: Check_congonhas)
  have u: "json_Unmarshal (tokens_of (JArray [congonhas, bad_code, congonhas]))
        = Inr ([congonhas_request] @ bad_code_request # [congonhas_request])"
    by (simp add: json_Unmarshal_array unmarshal_congonhas unmarshal_bad_code del: tokens_of.simps)
  have b: "tokens_of (JArray [congonhas, bad_code, congonhas])
      = TLBracket # array_prefix ([congonhas] @ [bad_code]) @ TComma # tokens_of congonhas @ [TRBracket]"
    by (simp add: array_prefix_def)
  note c = persistence_failure_response
      [OF h1 h2 persist_congonhas_failing unmarshal_bad_code Check_bad_code failing_on_bad,
        of "\<lparr>FlushErr = None\<rparr>" "TComma # tokens_of congonhas @ [TRBracket]"
           "tokens_of (JArray [congonhas, bad_code, congonhas])" "[congonhas_request]"]
  show ?thesis
    using h1 h2 persist_congonhas_failing unmarshal_bad_code Check_bad_code failing_on_bad u c
    unfolding b [symmetric]
    by (simp add: element_events_def request_events_def del: tokens_of.simps)
qed

subsection \<open>C10: the body null\<close>

text \<open>
  Claim C10: on the body \<^verbatim>\<open>null\<close> the handler that reads the whole body answers with
  status 200 and \<^verbatim>\<open>{"message":"airports upserted"}\<close> and leaves the store as it was,
  because \<^verbatim>\<open>json.Unmarshal\<close> of \<^verbatim>\<open>null\<close> into the slice gives no error and no
  element; the streaming handler answers the same body with status 400, since its first
  token is not \<^verbatim>\<open>[\<close>.
\<close>

theorem null_body:
  "HandleNonStreamingUpsert io_ReadAll json_Unmarshal up [TNull] (start d) =
     \<lparr>db = d,
      resp = \<lparr>status = Some StatusOK, flushed = False,
               docs = [UpsertAirportResponse ''airports upserted'']\<rparr>,
      trace = [EvReadAll, EvUnmarshal, EvRespond StatusOK]\<rparr>
   \<and> HandleUpsert up ctr [TNull] (start d) =
     \<lparr>db = d,
      resp = \<lparr>status = Some StatusBadRequest, flushed = False,
               docs = [ErrorResponse ''invalid JSON: expected '[' at start'']\<rparr>,
      trace = [EvToken LBracket, EvRespondWithError StatusBadRequest ''invalid JSON: expected '[' at start'']\<rparr>"
  by (simp add: handler_defs HandleNonStreamingUpsert_def io_ReadAll_def json_Unmarshal_def
        DecodeValue_def tokenPrepareForDecode_def readValue_def)

end
